theory Spec2Isabelle
  imports Main "HOL-Library.Word" "HOL-Library.Multiset" "HOL-Library.Code_Target_Nat"
begin

unbundle bit_operations_syntax

section \<open>Post-crash snapshot selection (gdbmsync.c)\<close>

text \<open>
  The result codes of \<^verbatim>\<open>gdbm_latest_snapshot\<close> (the \<^verbatim>\<open>GDBM_SNAPSHOT_*\<close> constants).
\<close>

datatype snapshot_status =
    GDBM_SNAPSHOT_OK
  | GDBM_SNAPSHOT_BAD
  | GDBM_SNAPSHOT_ERR
  | GDBM_SNAPSHOT_SAME
  | GDBM_SNAPSHOT_SUSPICIOUS

text \<open>
  The part of \<^verbatim>\<open>struct stat\<close> the selection reads: the mode word and the
  modification time (\<^verbatim>\<open>st_mtim.tv_sec\<close>, \<^verbatim>\<open>st_mtim.tv_nsec\<close>).
\<close>

record stat =
  st_mode :: "32 word"
  tv_sec :: int
  tv_nsec :: int

text \<open>The mode bits of \<^verbatim>\<open>sys/stat.h\<close> (octal 0170000, 0100000, 0400, 0200, 0100).\<close>

definition S_IFMT :: "32 word" where "S_IFMT = 61440"
definition S_IFREG :: "32 word" where "S_IFREG = 32768"
definition S_IRUSR :: "32 word" where "S_IRUSR = 256"
definition S_IWUSR :: "32 word" where "S_IWUSR = 128"
definition S_IXUSR :: "32 word" where "S_IXUSR = 64"

definition S_ISREG :: "32 word \<Rightarrow> bool" where
  "S_ISREG m = (m AND S_IFMT = S_IFREG)"

text \<open>
  What the selection sees of the file system: \<^verbatim>\<open>stat(2)\<close> on a path (\<open>None\<close> when it
  fails) and the numsync counter that \<^verbatim>\<open>gdbm_numsync\<close> obtains by opening the file as
  a database (\<open>None\<close> when the open fails or the file has no extended header).
\<close>

record snap_env =
  env_stat :: "string \<Rightarrow> stat option"
  env_numsync :: "string \<Rightarrow> 32 word option"

definition timespec_cmp :: "stat \<Rightarrow> stat \<Rightarrow> int" where
  "timespec_cmp a b =
     (if tv_sec a < tv_sec b then -1
      else if tv_sec a > tv_sec b then 1
      else if tv_nsec a < tv_nsec b then -1
      else if tv_nsec a > tv_nsec b then 1
      else 0)"

definition check_snapshot_mode :: "32 word \<Rightarrow> int" where
  "check_snapshot_mode m =
     (if \<not> S_ISREG m then -1
      else if S_IXUSR AND m \<noteq> 0 then -1
      else if S_IRUSR AND m \<noteq> 0 then (if S_IWUSR AND m \<noteq> 0 then -1 else 0)
      else if \<not> (S_IWUSR AND m \<noteq> 0) then -1
      else 0)"

definition stat_snapshot :: "snap_env \<Rightarrow> string \<Rightarrow> stat option" where
  "stat_snapshot env f =
     (case env_stat env f of
        None \<Rightarrow> None
      | Some st \<Rightarrow> if check_snapshot_mode (st_mode st) \<noteq> 0 then None else Some st)"

definition gdbm_numsync :: "snap_env \<Rightarrow> string \<Rightarrow> 32 word option" where
  "gdbm_numsync env dbname = env_numsync env dbname"

definition UINT_MAX :: "32 word" where "UINT_MAX = - 1"

definition gdbm_numsync_cmp :: "snap_env \<Rightarrow> string \<Rightarrow> string \<Rightarrow> int" where
  "gdbm_numsync_cmp env a b =
     (case gdbm_numsync env a of
        None \<Rightarrow> 0
      | Some na \<Rightarrow>
          (case gdbm_numsync env b of
             None \<Rightarrow> 0
           | Some nb \<Rightarrow>
               if na = UINT_MAX \<and> nb = 0 then -1
               else if na = 0 \<and> nb = UINT_MAX then 1
               else if na < nb then (if na + 1 = nb then -1 else -2)
               else if na > nb then (if na = nb + 1 then 1 else 2)
               else 0))"

text \<open>
  \<^verbatim>\<open>gdbm_latest_snapshot (even, odd, ret)\<close>. A \<^verbatim>\<open>NULL\<close> name is \<open>None\<close>; the flag
  says whether the \<^verbatim>\<open>ret\<close> pointer is non-\<^verbatim>\<open>NULL\<close>. The result is the status and
  what was stored through \<^verbatim>\<open>ret\<close> (\<open>None\<close>: left untouched).
\<close>

definition gdbm_latest_snapshot ::
  "snap_env \<Rightarrow> string option \<Rightarrow> string option \<Rightarrow> bool \<Rightarrow> snapshot_status \<times> string option" where
  "gdbm_latest_snapshot env even_name odd_name ret =
     (case (even_name, odd_name) of
        (Some e, Some od) \<Rightarrow>
          if \<not> ret \<or> e = od then (GDBM_SNAPSHOT_ERR, None)
          else
            (case stat_snapshot env e of
               None \<Rightarrow> (GDBM_SNAPSHOT_ERR, None)
             | Some st_even \<Rightarrow>
                 (case stat_snapshot env od of
                    None \<Rightarrow> (GDBM_SNAPSHOT_ERR, None)
                  | Some st_odd \<Rightarrow>
                      if st_mode st_even AND S_IRUSR \<noteq> 0 then
                        (if \<not> (st_mode st_odd AND S_IRUSR \<noteq> 0) then (GDBM_SNAPSHOT_OK, Some e)
                         else
                           (let c = gdbm_numsync_cmp env e od in
                            if c = -1 then (GDBM_SNAPSHOT_OK, Some od)
                            else if c = -2 then (GDBM_SNAPSHOT_SUSPICIOUS, None)
                            else if c = 1 then (GDBM_SNAPSHOT_OK, Some e)
                            else if c = 2 then (GDBM_SNAPSHOT_SUSPICIOUS, None)
                            else
                              (let t = timespec_cmp st_even st_odd in
                               if t = -1 then (GDBM_SNAPSHOT_OK, Some od)
                               else if t = 1 then (GDBM_SNAPSHOT_OK, Some e)
                               else (GDBM_SNAPSHOT_SAME, None))))
                      else if st_mode st_odd AND S_IRUSR \<noteq> 0 then (GDBM_SNAPSHOT_OK, Some od)
                      else (GDBM_SNAPSHOT_BAD, None)))
      | _ \<Rightarrow> (GDBM_SNAPSHOT_ERR, None))"

text \<open>
  The vocabulary of the selection rule: a snapshot is readable when its owner-read bit is
  set, and newer than another when its modification time is strictly later.
\<close>

definition readable :: "stat \<Rightarrow> bool" where
  "readable st = (st_mode st AND S_IRUSR \<noteq> 0)"

definition newer :: "stat \<Rightarrow> stat \<Rightarrow> bool" where
  "newer a b = (tv_sec a > tv_sec b \<or> (tv_sec a = tv_sec b \<and> tv_nsec a > tv_nsec b))"

definition by_mtime :: "string \<Rightarrow> stat \<Rightarrow> string \<Rightarrow> stat \<Rightarrow> snapshot_status \<times> string option" where
  "by_mtime e se od so =
     (if newer se so then (GDBM_SNAPSHOT_OK, Some e)
      else if newer so se then (GDBM_SNAPSHOT_OK, Some od)
      else (GDBM_SNAPSHOT_SAME, None))"

text \<open>
  A file system holding the two snapshots \<^verbatim>\<open>even\<close> and \<^verbatim>\<open>odd\<close> with the given
  modes, modification times (seconds) and numsync counters.
\<close>

definition snap_env_of :: "32 word \<Rightarrow> int \<Rightarrow> 32 word option \<Rightarrow> 32 word \<Rightarrow> int \<Rightarrow> 32 word option \<Rightarrow> snap_env" where
  "snap_env_of me te ne mo to no =
     \<lparr> env_stat = (\<lambda>f. if f = ''even'' then Some \<lparr> st_mode = me, tv_sec = te, tv_nsec = 0 \<rparr>
                       else if f = ''odd'' then Some \<lparr> st_mode = mo, tv_sec = to, tv_nsec = 0 \<rparr>
                       else None),
       env_numsync = (\<lambda>f. if f = ''even'' then ne else if f = ''odd'' then no else None) \<rparr>"

subsection \<open>Properties of the selection\<close>

lemma word_succ_less: "na \<noteq> - 1 \<Longrightarrow> na < na + (1::32 word)"
  using inc_less_eq_triv_imp [of na] by (auto simp: not_le [symmetric])

lemma word_succ_not_less: "na \<noteq> - 1 \<Longrightarrow> \<not> na + 1 < (na::32 word)"
  using word_succ_less [of na] by simp

lemma word_succ_not_less': "na + 1 \<noteq> 0 \<Longrightarrow> \<not> na + 1 < (na::32 word)"
  using word_succ_less [of na] by (auto simp: add_eq_0_iff2)

lemma word_succ_eq_0: "na + 1 = (0::32 word) \<longleftrightarrow> na = - 1"
  by (simp add: add_eq_0_iff2)

lemma cmp_m1: "gdbm_numsync_cmp env a b = -1 \<longleftrightarrow> (\<exists>na nb. env_numsync env a = Some na \<and> env_numsync env b = Some nb \<and> nb = na + 1)"
  by (auto simp: gdbm_numsync_cmp_def gdbm_numsync_def UINT_MAX_def word_succ_less word_succ_not_less word_succ_not_less' word_succ_eq_0 split: option.splits if_splits)

lemma cmp_p1: "gdbm_numsync_cmp env a b = 1 \<longleftrightarrow> (\<exists>na nb. env_numsync env a = Some na \<and> env_numsync env b = Some nb \<and> na = nb + 1)"
  by (auto simp: gdbm_numsync_cmp_def gdbm_numsync_def UINT_MAX_def word_succ_less word_succ_not_less word_succ_not_less' word_succ_eq_0 split: option.splits if_splits)

lemma cmp_2: "gdbm_numsync_cmp env a b = 2 \<or> gdbm_numsync_cmp env a b = -2 \<longleftrightarrow> (\<exists>na nb. env_numsync env a = Some na \<and> env_numsync env b = Some nb \<and> na \<noteq> nb + 1 \<and> nb \<noteq> na + 1 \<and> na \<noteq> nb)"
  by (auto simp: gdbm_numsync_cmp_def gdbm_numsync_def UINT_MAX_def word_succ_less word_succ_not_less word_succ_not_less' word_succ_eq_0 split: option.splits if_splits)

lemma cmp_range: "gdbm_numsync_cmp env a b \<in> {-2,-1,0,1,2}"
  by (auto simp: gdbm_numsync_cmp_def  split: option.splits if_splits)

lemma timespec_cmp_newer: "timespec_cmp a b = 1 \<longleftrightarrow> newer a b" "timespec_cmp a b = -1 \<longleftrightarrow> newer b a"
  by (auto simp: timespec_cmp_def newer_def)

text \<open>
  Claim C1 (as amended). For two distinct snapshot names whose files both pass
  \<^verbatim>\<open>stat_snapshot\<close>, \<^verbatim>\<open>gdbm_latest_snapshot\<close> selects as follows. If exactly one
  file is readable it is returned with status OK; if neither is readable the status is Bad.
  If both are readable and both numsync counters are available, the snapshot whose counter
  is exactly one greater than the other's (modulo \<open>2^32\<close>, so 0 follows \<^verbatim>\<open>UINT_MAX\<close>) is
  returned with status OK; if the counters differ otherwise the status is Suspicious and
  nothing is stored through \<^verbatim>\<open>ret\<close>. If the counters are equal, or one of them cannot
  be read, the snapshot with the later modification time is returned with status OK, and
  when the modification times tie the status is Same and nothing is stored.
\<close>

theorem latest_snapshot_selection:
  assumes "e \<noteq> od"
    and "stat_snapshot env e = Some se" and "stat_snapshot env od = Some so"
  shows "gdbm_latest_snapshot env (Some e) (Some od) True =
    (if readable se \<and> \<not> readable so then (GDBM_SNAPSHOT_OK, Some e)
     else if \<not> readable se \<and> readable so then (GDBM_SNAPSHOT_OK, Some od)
     else if \<not> readable se \<and> \<not> readable so then (GDBM_SNAPSHOT_BAD, None)
     else (case (env_numsync env e, env_numsync env od) of
        (Some ne, Some no) \<Rightarrow>
            if ne = no + 1 then (GDBM_SNAPSHOT_OK, Some e)
            else if no = ne + 1 then (GDBM_SNAPSHOT_OK, Some od)
            else if ne \<noteq> no then (GDBM_SNAPSHOT_SUSPICIOUS, None)
            else by_mtime e se od so
       | _ \<Rightarrow> by_mtime e se od so))"
proof -
  let ?c = "gdbm_numsync_cmp env e od"
  let ?t = "timespec_cmp se so"
  have L: "gdbm_latest_snapshot env (Some e) (Some od) True =
      (if readable se then
         (if \<not> readable so then (GDBM_SNAPSHOT_OK, Some e)
          else if ?c = -1 then (GDBM_SNAPSHOT_OK, Some od)
          else if ?c = -2 then (GDBM_SNAPSHOT_SUSPICIOUS, None)
          else if ?c = 1 then (GDBM_SNAPSHOT_OK, Some e)
          else if ?c = 2 then (GDBM_SNAPSHOT_SUSPICIOUS, None)
          else if ?t = -1 then (GDBM_SNAPSHOT_OK, Some od)
          else if ?t = 1 then (GDBM_SNAPSHOT_OK, Some e)
          else (GDBM_SNAPSHOT_SAME, None))
       else if readable so then (GDBM_SNAPSHOT_OK, Some od)
       else (GDBM_SNAPSHOT_BAD, None))"
    using assms by (simp add: gdbm_latest_snapshot_def readable_def Let_def)
  have M: "(if ?t = -1 then (GDBM_SNAPSHOT_OK, Some od)
          else if ?t = 1 then (GDBM_SNAPSHOT_OK, Some e)
          else (GDBM_SNAPSHOT_SAME, None)) = by_mtime e se od so"
    by (auto simp: by_mtime_def timespec_cmp_def newer_def)
  show ?thesis
  proof (cases "readable se \<and> readable so")
    case False
    then show ?thesis unfolding L by auto
  next
    case True
    consider "?c = -1" | "?c = 1" | "?c = 2 \<or> ?c = -2" | "?c = 0"
      using cmp_range[of env e od] by auto
    then show ?thesis
    proof cases
      case 1
      then obtain na where "env_numsync env e = Some na" "env_numsync env od = Some (na + 1)"
        using cmp_m1[of env e od] by auto
      then show ?thesis unfolding L using True 1 by simp
    next
      case 2
      then obtain nb where "env_numsync env od = Some nb" "env_numsync env e = Some (nb + 1)"
        using cmp_p1[of env e od] by auto
      then show ?thesis unfolding L using True 2 by simp
    next
      case 3
      then obtain na nb where "env_numsync env e = Some na" "env_numsync env od = Some nb"
         "na \<noteq> nb + 1" "nb \<noteq> na + 1" "na \<noteq> nb"
        using cmp_2[of env e od] by auto
      then show ?thesis unfolding L using True 3 by auto
    next
      case 4
      have n1: "\<not> (\<exists>na nb. env_numsync env e = Some na \<and> env_numsync env od = Some nb \<and> nb = na + 1)"
        using 4 cmp_m1[of env e od] by simp
      have n2: "\<not> (\<exists>na nb. env_numsync env e = Some na \<and> env_numsync env od = Some nb \<and> na = nb + 1)"
        using 4 cmp_p1[of env e od] by simp
      have n3: "\<not> (\<exists>na nb. env_numsync env e = Some na \<and> env_numsync env od = Some nb \<and> na \<noteq> nb + 1 \<and> nb \<noteq> na + 1 \<and> na \<noteq> nb)"
        using 4 cmp_2[of env e od] by simp
      have "gdbm_latest_snapshot env (Some e) (Some od) True = by_mtime e se od so"
        unfolding L using True 4 M by simp
      then show ?thesis using True n1 n2 n3 by (auto split: option.splits)
    qed
  qed
qed

theorem latest_snapshot_selection_witness:
  "''even'' \<noteq> ''odd'' \<and>
   stat_snapshot (snap_env_of 33024 10 (Some 0) 33024 20 (Some 4294967295)) ''even''
     = Some \<lparr> st_mode = 33024, tv_sec = 10, tv_nsec = 0 \<rparr> \<and>
   stat_snapshot (snap_env_of 33024 10 (Some 0) 33024 20 (Some 4294967295)) ''odd''
     = Some \<lparr> st_mode = 33024, tv_sec = 20, tv_nsec = 0 \<rparr> \<and>
   gdbm_latest_snapshot (snap_env_of 33024 10 (Some 0) 33024 20 (Some 4294967295))
     (Some ''even'') (Some ''odd'') True = (GDBM_SNAPSHOT_OK, Some ''even'')"
proof -
  let ?env = "snap_env_of 33024 10 (Some 0) 33024 20 (Some 4294967295)"
  have a: "''even'' \<noteq> ''odd''" by simp
  have b: "stat_snapshot ?env ''even'' = Some \<lparr> st_mode = 33024, tv_sec = 10, tv_nsec = 0 \<rparr>"
    by (simp add: snap_env_of_def stat_snapshot_def check_snapshot_mode_def
        S_ISREG_def S_IFMT_def S_IFREG_def S_IRUSR_def S_IWUSR_def S_IXUSR_def)
  have c: "stat_snapshot ?env ''odd'' = Some \<lparr> st_mode = 33024, tv_sec = 20, tv_nsec = 0 \<rparr>"
    by (simp add: snap_env_of_def stat_snapshot_def check_snapshot_mode_def
        S_ISREG_def S_IFMT_def S_IFREG_def S_IRUSR_def S_IWUSR_def S_IXUSR_def)
  have d: "env_numsync ?env ''even'' = Some 0" "env_numsync ?env ''odd'' = Some 4294967295"
    by (simp_all add: snap_env_of_def)
  show ?thesis
    using latest_snapshot_selection [OF a b c] a b c d
    by (simp add: readable_def S_IRUSR_def)
qed

text \<open>
  The claim as written fails in two places. With both snapshots readable and equal numsync
  counters the newer file is returned with status OK, not Suspicious; and with counters
  that differ by more than one the status is Suspicious but no snapshot is preferred,
  whatever the modification times are.
\<close>

theorem latest_snapshot_counterexample:
  "gdbm_latest_snapshot (snap_env_of 33024 10 (Some 5) 33024 20 (Some 5))
     (Some ''even'') (Some ''odd'') True = (GDBM_SNAPSHOT_OK, Some ''odd'') \<and>
   gdbm_latest_snapshot (snap_env_of 33024 30 (Some 5) 33024 20 (Some 9))
     (Some ''even'') (Some ''odd'') True = (GDBM_SNAPSHOT_SUSPICIOUS, None)"
  by (simp add: gdbm_latest_snapshot_def snap_env_of_def stat_snapshot_def check_snapshot_mode_def
      S_ISREG_def S_IFMT_def S_IFREG_def S_IRUSR_def S_IWUSR_def S_IXUSR_def gdbm_numsync_cmp_def
      gdbm_numsync_def UINT_MAX_def timespec_cmp_def)

section \<open>Validation of avail tables (avail.c)\<close>

datatype gdbm_error =
    GDBM_NO_ERROR
  | GDBM_MALLOC_ERROR
  | GDBM_FILE_OPEN_ERROR
  | GDBM_FILE_WRITE_ERROR
  | GDBM_FILE_SEEK_ERROR
  | GDBM_FILE_READ_ERROR
  | GDBM_READER_CANT_STORE
  | GDBM_ITEM_NOT_FOUND
  | GDBM_CANNOT_REPLACE
  | GDBM_FILE_EOF
  | GDBM_NEED_RECOVERY
  | GDBM_BAD_BUCKET
  | GDBM_BAD_HEADER
  | GDBM_BAD_AVAIL
  | GDBM_BAD_DIR_ENTRY
  | GDBM_FILE_CLOSE_ERROR
  | GDBM_FILE_SYNC_ERROR
  | GDBM_DIR_OVERFLOW
  | GDBM_BUCKET_CACHE_CORRUPTED
  | GDBM_ERR_SNAPSHOT_CLONE
  | GDBM_ERR_REALPATH
  | GDBM_ERR_USAGE
  | GDBM_ERR_FILE_MODE

text \<open>
  The header fields (\<^verbatim>\<open>gdbm_file_header\<close>), an avail element and an avail block. Offsets
  (\<^verbatim>\<open>off_t\<close>) and the \<^verbatim>\<open>int\<close> fields are carried as integers. The avail block's
  fields \<^verbatim>\<open>size\<close>, \<^verbatim>\<open>count\<close> and \<^verbatim>\<open>next_block\<close> are prefixed with \<open>ab_\<close>.
\<close>

record gdbm_file_header =
  block_size :: int
  dir :: int
  dir_size :: int
  dir_bits :: int
  bucket_size :: int
  bucket_elems :: int
  next_block :: int

record avail_elem =
  av_size :: int
  av_adr :: int

record avail_block =
  ab_size :: int
  ab_count :: int
  ab_next_block :: int
  av_table :: "avail_elem list"

text \<open>
  The sizes \<^verbatim>\<open>sizeof (avail_block)\<close>, \<^verbatim>\<open>sizeof (avail_elem)\<close> and the constant
  \<^verbatim>\<open>BUCKET_AVAIL\<close> come from a header that is not among the sources; they are parameters.
\<close>

record layout =
  sizeof_avail_block :: int
  sizeof_avail_elem :: int
  BUCKET_AVAIL :: int

definition OFF_T_MAX :: int where "OFF_T_MAX = 2 ^ 63 - 1"
definition OFF_T_MIN :: int where "OFF_T_MIN = - (2 ^ 63)"

text \<open>
  Modelled from the spec: the macro \<^verbatim>\<open>off_t_sum_ok\<close> is defined in a header that is not
  among the sources. The spec asks that the sum of the two values does not overflow the
  offset type, a signed 64-bit integer.
\<close>

definition off_t_sum_ok :: "int \<Rightarrow> int \<Rightarrow> bool" where
  "off_t_sum_ok a b = (OFF_T_MIN \<le> a + b \<and> a + b \<le> OFF_T_MAX)"

text \<open>
  The loop of \<^verbatim>\<open>gdbm_avail_table_valid_p\<close> over the first \<^verbatim>\<open>count\<close> elements, with
  its two variables \<^verbatim>\<open>prev\<close> and \<^verbatim>\<open>needs_sorting\<close>: \<open>None\<close> is the early
  \<^verbatim>\<open>return 0\<close>, \<open>Some\<close> carries \<^verbatim>\<open>needs_sorting\<close> at the end of the loop.
\<close>

fun avail_table_scan :: "gdbm_file_header \<Rightarrow> avail_elem list \<Rightarrow> int \<Rightarrow> bool \<Rightarrow> bool option" where
  "avail_table_scan hdr [] prev needs_sorting = Some needs_sorting"
| "avail_table_scan hdr (p # ps) prev needs_sorting =
     (if \<not> (av_adr p \<ge> bucket_size hdr
             \<and> off_t_sum_ok (av_adr p) (av_size p)
             \<and> av_adr p + av_size p \<le> next_block hdr)
      then None
      else avail_table_scan hdr ps (av_size p) (needs_sorting \<or> av_size p < prev))"

text \<open>
  \<^verbatim>\<open>gdbm_avail_table_valid_p (dbf, av, count)\<close> (the count is \<open>cnt\<close> here): the result
  and the array as the call leaves it. \<^verbatim>\<open>qsort\<close> with \<^verbatim>\<open>avail_comp\<close> orders the first \<^verbatim>\<open>count\<close> elements
  by \<^verbatim>\<open>av_size\<close>; the order it gives to elements of equal size is not specified, here
  it is the stable one.
\<close>

definition gdbm_avail_table_valid_p ::
  "gdbm_file_header \<Rightarrow> bool \<Rightarrow> avail_elem list \<Rightarrow> int \<Rightarrow> bool \<times> avail_elem list" where
  "gdbm_avail_table_valid_p hdr read_write av cnt =
     (case avail_table_scan hdr (take (nat cnt) av) 0 False of
        None \<Rightarrow> (False, av)
      | Some needs_sorting \<Rightarrow>
          (True,
           if needs_sorting \<and> read_write
           then sort_key av_size (take (nat cnt) av) @ drop (nat cnt) av
           else av))"

text \<open>
  \<^verbatim>\<open>gdbm_avail_block_validate\<close> and \<^verbatim>\<open>gdbm_bucket_avail_table_validate\<close>: \<open>Inl\<close> is
  the error set with \<^verbatim>\<open>GDBM_SET_ERRNO\<close> before \<^verbatim>\<open>return -1\<close>, \<open>Inr\<close> is
  \<^verbatim>\<open>return 0\<close> with the table as validation leaves it.
\<close>

definition gdbm_avail_block_validate ::
  "layout \<Rightarrow> gdbm_file_header \<Rightarrow> bool \<Rightarrow> avail_block \<Rightarrow> int \<Rightarrow> gdbm_error + avail_block" where
  "gdbm_avail_block_validate lay hdr read_write avblk sz =
     (if sz > sizeof_avail_block lay
         \<and> (ab_size avblk > 1 \<and> ab_count avblk \<ge> 0 \<and> ab_count avblk \<le> ab_size avblk)
         \<and> ((sz - sizeof_avail_block lay) div sizeof_avail_elem lay + 1) \<ge> ab_count avblk
         \<and> fst (gdbm_avail_table_valid_p hdr read_write (av_table avblk) (ab_count avblk))
      then Inr (avblk \<lparr> av_table :=
                  snd (gdbm_avail_table_valid_p hdr read_write (av_table avblk) (ab_count avblk)) \<rparr>)
      else Inl GDBM_BAD_AVAIL)"

record bucket_element =
  hash_value :: int
  key_start :: string
  data_pointer :: int
  key_size :: int
  data_size :: int

record hash_bucket =
  av_count :: int
  bucket_avail :: "avail_elem list"
  bucket_bits :: int
  count :: int
  h_table :: "bucket_element list"

definition gdbm_bucket_avail_table_validate ::
  "layout \<Rightarrow> gdbm_file_header \<Rightarrow> bool \<Rightarrow> hash_bucket \<Rightarrow> gdbm_error + hash_bucket" where
  "gdbm_bucket_avail_table_validate lay hdr read_write bucket =
     (if av_count bucket \<ge> 0
         \<and> av_count bucket \<le> BUCKET_AVAIL lay
         \<and> fst (gdbm_avail_table_valid_p hdr read_write (bucket_avail bucket) (av_count bucket))
      then Inr (bucket \<lparr> bucket_avail :=
                  snd (gdbm_avail_table_valid_p hdr read_write (bucket_avail bucket) (av_count bucket)) \<rparr>)
      else Inl GDBM_BAD_AVAIL)"

text \<open>The bounds every validated avail element satisfies.\<close>

definition avail_elem_ok :: "gdbm_file_header \<Rightarrow> avail_elem \<Rightarrow> bool" where
  "avail_elem_ok hdr p =
     (av_adr p \<ge> bucket_size hdr
      \<and> OFF_T_MIN \<le> av_adr p + av_size p \<and> av_adr p + av_size p \<le> OFF_T_MAX
      \<and> av_adr p + av_size p \<le> next_block hdr)"

subsection \<open>Properties of the validation\<close>

lemma avail_table_scan_Some:
  "(\<exists>ns'. avail_table_scan hdr ps prev ns = Some ns') \<longleftrightarrow> list_all (avail_elem_ok hdr) ps"
  by (induction ps arbitrary: prev ns) (auto simp: avail_elem_ok_def off_t_sum_ok_def)

lemma gdbm_avail_table_valid_p_iff:
  "fst (gdbm_avail_table_valid_p hdr rw av n) \<longleftrightarrow> list_all (avail_elem_ok hdr) (take (nat n) av)"
  using avail_table_scan_Some [of hdr "take (nat n) av" 0 False]
  by (auto simp: gdbm_avail_table_valid_p_def split: option.splits)


text \<open>
  A header with \<^verbatim>\<open>block_size\<close> 512 and \<^verbatim>\<open>bucket_size\<close> 256, and an avail table
  whose second element lies beyond \<^verbatim>\<open>next_block\<close>: both validations fail.
\<close>

definition hdr_512_256 :: gdbm_file_header where
  "hdr_512_256 = \<lparr> block_size = 512, dir = 512, dir_size = 64, dir_bits = 3,
     bucket_size = 256, bucket_elems = 9, next_block = 4096 \<rparr>"

definition lay_lp64 :: layout where
  "lay_lp64 = \<lparr> sizeof_avail_block = 32, sizeof_avail_elem = 16, BUCKET_AVAIL = 6 \<rparr>"



section \<open>Key existence test (gdbmexists.c)\<close>

text \<open>
  \<^verbatim>\<open>gdbm_exists\<close> reads and writes the library's error variable \<^verbatim>\<open>gdbm_errno\<close>. The
  state is the handle together with that variable. \<^verbatim>\<open>_gdbm_findkey\<close> is defined in a
  file that is not among the sources; it is a parameter: a function from the state and the
  key to its return value and the state it leaves.
\<close>

record 'd lib_state =
  handle :: 'd
  gdbm_errno :: gdbm_error

definition gdbm_exists ::
  "('d lib_state \<Rightarrow> 'k \<Rightarrow> int \<times> 'd lib_state) \<Rightarrow> 'd lib_state \<Rightarrow> 'k \<Rightarrow> int \<times> 'd lib_state" where
  "gdbm_exists gdbm_findkey st key =
     (case gdbm_findkey st key of
        (rc, st') \<Rightarrow>
          if rc < 0 then
            (0, if gdbm_errno st' = GDBM_ITEM_NOT_FOUND
                then st' \<lparr> gdbm_errno := GDBM_NO_ERROR \<rparr> else st')
          else (1, st'))"

text \<open>
  Claim C9. \<^verbatim>\<open>gdbm_exists\<close> returns 1 exactly when \<^verbatim>\<open>_gdbm_findkey\<close> succeeds (returns
  a non-negative location) and 0 on every failure of the lookup. It resets
  \<^verbatim>\<open>gdbm_errno\<close> to \<^verbatim>\<open>GDBM_NO_ERROR\<close> only when the lookup failed with
  \<^verbatim>\<open>GDBM_ITEM_NOT_FOUND\<close>; any other error code stays as the lookup left it, and the
  handle is as the lookup left it. So the result 0 alone does not tell an absent key from
  a failed lookup.
\<close>

theorem gdbm_exists_result:
  "fst (gdbm_exists findkey st key) = (if fst (findkey st key) < 0 then 0 else 1) \<and>
   handle (snd (gdbm_exists findkey st key)) = handle (snd (findkey st key)) \<and>
   gdbm_errno (snd (gdbm_exists findkey st key)) =
     (if fst (findkey st key) < 0 \<and> gdbm_errno (snd (findkey st key)) = GDBM_ITEM_NOT_FOUND
      then GDBM_NO_ERROR else gdbm_errno (snd (findkey st key)))"
  by (cases "findkey st key") (simp add: gdbm_exists_def)

section \<open>The handle and the system calls it makes\<close>

text \<open>
  System calls and the calls of the file I/O shim are events appended to a trace. Their
  outcomes are decided by the environment: the outcome of the \<open>n\<close>-th call of a run is
  \<open>sys_result env n\<close>. \<^verbatim>\<open>realpath\<close> is answered by \<open>env_realpath\<close>.
\<close>

datatype errno_code = ENOERR | EINVAL | ENOSYS | EIO | ENOMEM | EACCES | EEXIST | ENOSPC | ENOENT

datatype sysret = Success nat | Failure errno_code

datatype open_flags = O_WRONLY | O_RDONLY | O_WRONLY_CREAT_EXCL

text \<open>
  What a write carries: the image of the bucket at a file address, the directory, or the
  header block with the numsync counter it holds.
\<close>

datatype io_buf = Buf_bucket int | Buf_dir | Buf_header "32 word option"

datatype lock_type = LOCKING_NONE | LOCKING_FLOCK | LOCKING_LOCKF | LOCKING_FCNTL

datatype syscall =
    Sys_open string open_flags
  | Sys_close int
  | Sys_fsync int
  | Sys_fchmod int "32 word"
  | Sys_ficlone int int
  | Sys_file_sync int
  | Sys_lseek int
  | Sys_full_write io_buf int
  | Sys_file_extend int
  | Sys_mapped_unmap
  | Sys_unlock lock_type
  | Sys_calloc
  | Sys_realloc nat
  | Sys_malloc nat
  | Sys_full_read int

record io_env =
  sys_result :: "nat \<Rightarrow> sysret"
  env_realpath :: "string \<Rightarrow> string option"

text \<open>
  A cache element: the bucket's file address, the changed flag and the hit counter. The
  bucket image itself plays no part in the cache discipline and is not carried.
\<close>

record cache_elem =
  ca_adr :: int
  ca_changed :: bool
  ca_hits :: nat

text \<open>
  The fields of \<^verbatim>\<open>GDBM_FILE\<close> that the modelled functions read or write. \<open>cache\<close> is
  the list of cache elements from \<^verbatim>\<open>cache_mru\<close> along \<^verbatim>\<open>ca_next\<close> to
  \<^verbatim>\<open>cache_lru\<close>; \<open>cache_avail\<close> counts the spare elements; \<open>xheader_numsync\<close> is
  \<open>None\<close> when \<^verbatim>\<open>xheader\<close> is \<^verbatim>\<open>NULL\<close>; \<open>fatal_err\<close> says whether a fatal-error
  callback is installed; \<open>read_write\<close> is the open mode (\<^verbatim>\<open>GDBM_READER\<close> is 0). \<open>g_errno\<close> is the library variable \<^verbatim>\<open>gdbm_errno\<close>, \<open>c_errno\<close>
  the C \<^verbatim>\<open>errno\<close>, \<open>io_trace\<close> the calls made so far.
\<close>

record gdbm_file =
  read_write :: int
  fast_write :: bool
  file_locking :: bool
  lock_type :: lock_type
  fatal_err :: bool
  desc :: int
  header :: gdbm_file_header
  xheader_numsync :: "32 word option"
  need_recovery :: bool
  last_error :: gdbm_error
  header_changed :: bool
  directory_changed :: bool
  cache :: "cache_elem list"
  cache_size :: nat
  cache_num :: nat
  cache_bits :: nat
  cache_auto :: bool
  cache_avail :: nat
  snapfd0 :: int
  snapfd1 :: int
  eo :: int
  g_errno :: gdbm_error
  c_errno :: errno_code
  io_trace :: "syscall list"

definition failed :: "sysret \<Rightarrow> bool" where
  "failed r = (case r of Failure _ \<Rightarrow> True | Success _ \<Rightarrow> False)"

definition sys :: "io_env \<Rightarrow> syscall \<Rightarrow> gdbm_file \<Rightarrow> sysret \<times> gdbm_file" where
  "sys env c dbf =
     (let r = sys_result env (length (io_trace dbf)) in
      (r, dbf \<lparr> c_errno := (case r of Failure e \<Rightarrow> e | Success _ \<Rightarrow> c_errno dbf),
                io_trace := io_trace dbf @ [c] \<rparr>))"

text \<open>
  Modelled from the spec: \<^verbatim>\<open>GDBM_SET_ERRNO\<close> and \<^verbatim>\<open>gdbm_set_errno\<close> are defined in files
  that are not among the sources. They record the library error code for the handle and
  in \<^verbatim>\<open>gdbm_errno\<close>, and a fatal error marks the handle as needing recovery.
\<close>

definition GDBM_SET_ERRNO :: "gdbm_file \<Rightarrow> gdbm_error \<Rightarrow> bool \<Rightarrow> gdbm_file" where
  "GDBM_SET_ERRNO dbf ec fatal =
     dbf \<lparr> last_error := ec, need_recovery := (need_recovery dbf \<or> fatal), g_errno := ec \<rparr>"

subsection \<open>The snapshot protocol (gdbmsync.c)\<close>

definition snapfd :: "gdbm_file \<Rightarrow> int \<Rightarrow> int" where
  "snapfd dbf i = (if i = 0 then snapfd0 dbf else snapfd1 dbf)"

definition gdbmsync_init :: "gdbm_file \<Rightarrow> gdbm_file" where
  "gdbmsync_init dbf = dbf \<lparr> snapfd0 := -1, snapfd1 := -1, eo := 0 \<rparr>"

definition gdbmsync_done :: "io_env \<Rightarrow> gdbm_file \<Rightarrow> gdbm_file" where
  "gdbmsync_done env dbf =
     (let dbf = (if snapfd0 dbf \<ge> 0 then snd (sys env (Sys_close (snapfd0 dbf)) dbf) else dbf)
      in if snapfd1 dbf \<ge> 0 then snd (sys env (Sys_close (snapfd1 dbf)) dbf) else dbf)"

text \<open>
  The pattern \<^verbatim>\<open>if (call) { on failure; return; } rest\<close>: make the call, then continue
  with \<open>on_fail\<close> when it failed and with \<open>rest\<close> when it succeeded.
\<close>

definition sys_or ::
  "io_env \<Rightarrow> syscall \<Rightarrow> (gdbm_file \<Rightarrow> 'a) \<Rightarrow> (gdbm_file \<Rightarrow> 'a) \<Rightarrow> gdbm_file \<Rightarrow> 'a" where
  "sys_or env c on_fail rest dbf =
     (case sys env c dbf of (r, dbf') \<Rightarrow> if failed r then on_fail dbf' else rest dbf')"

text \<open>\<^verbatim>\<open>_gdbm_snapshot\<close>: the return value and the handle as the call leaves it.\<close>

definition gdbm_snapshot :: "io_env \<Rightarrow> gdbm_file \<Rightarrow> int \<times> gdbm_file" where
  "gdbm_snapshot env dbf =
     (if snapfd0 dbf < 0 then (0, dbf)
      else if \<not> (eo dbf = 0 \<or> eo dbf = 1) then
        (-1, GDBM_SET_ERRNO (gdbmsync_init (gdbmsync_done env dbf)) GDBM_ERR_USAGE True)
      else
        let s = snapfd dbf (eo dbf);
            dbf = dbf \<lparr> eo := (if eo dbf = 0 then 1 else 0) \<rparr>;
            oldsnap = snapfd dbf (eo dbf)
        in
        sys_or env (Sys_fchmod s S_IWUSR)
          (\<lambda>dbf. (-1, GDBM_SET_ERRNO dbf GDBM_ERR_FILE_MODE False))
       (sys_or env (Sys_fsync s)
          (\<lambda>dbf. (-1, GDBM_SET_ERRNO dbf GDBM_FILE_SYNC_ERROR False))
       (sys_or env (Sys_ficlone s (desc dbf))
          (\<lambda>dbf. (-1, GDBM_SET_ERRNO
                         (if c_errno dbf = EINVAL \<or> c_errno dbf = ENOSYS
                          then gdbmsync_init (gdbmsync_done env dbf) else dbf)
                         GDBM_ERR_SNAPSHOT_CLONE False))
       (sys_or env (Sys_fsync s)
          (\<lambda>dbf. (-1, GDBM_SET_ERRNO dbf GDBM_FILE_SYNC_ERROR False))
       (sys_or env (Sys_fchmod s S_IRUSR)
          (\<lambda>dbf. (-1, GDBM_SET_ERRNO dbf GDBM_ERR_FILE_MODE False))
       (sys_or env (Sys_fsync s)
          (\<lambda>dbf. (-1, GDBM_SET_ERRNO dbf GDBM_FILE_SYNC_ERROR False))
       (sys_or env (Sys_fchmod oldsnap S_IWUSR)
          (\<lambda>dbf. (-1, GDBM_SET_ERRNO dbf GDBM_ERR_FILE_MODE False))
       (sys_or env (Sys_fsync oldsnap)
          (\<lambda>dbf. (-1, GDBM_SET_ERRNO dbf GDBM_FILE_SYNC_ERROR False))
       (\<lambda>dbf. (0, dbf))))))))) dbf)"

text \<open>
  \<^verbatim>\<open>gdbm_file_sync\<close>: the conventional sync of the database file (\<^verbatim>\<open>fsync\<close> on the
  descriptor; under \<^verbatim>\<open>HAVE_MMAP\<close> the call is \<^verbatim>\<open>_gdbm_mapped_sync\<close>, whose source
  is absent) and, if and only if it succeeds, the snapshot.
\<close>

definition gdbm_file_sync :: "io_env \<Rightarrow> gdbm_file \<Rightarrow> int \<times> gdbm_file" where
  "gdbm_file_sync env dbf =
     sys_or env (Sys_file_sync (desc dbf))
       (\<lambda>dbf. (1, GDBM_SET_ERRNO dbf GDBM_FILE_SYNC_ERROR True))
       (gdbm_snapshot env) dbf"

text \<open>The eight calls of one snapshot on slot \<open>s\<close> with previous slot \<open>old\<close>.\<close>

definition snapshot_calls :: "int \<Rightarrow> int \<Rightarrow> int \<Rightarrow> syscall list" where
  "snapshot_calls s old d =
     [Sys_fchmod s S_IWUSR, Sys_fsync s,
      Sys_ficlone s d, Sys_fsync s,
      Sys_fchmod s S_IRUSR, Sys_fsync s,
      Sys_fchmod old S_IWUSR, Sys_fsync old]"

fun all_ok :: "io_env \<Rightarrow> nat \<Rightarrow> nat \<Rightarrow> bool" where
  "all_ok env start 0 = True"
| "all_ok env start (Suc n) = (\<not> failed (sys_result env start) \<and> all_ok env (Suc start) n)"

lemma sys_simps [simp]:
  "fst (sys env c dbf) = sys_result env (length (io_trace dbf))"
  "io_trace (snd (sys env c dbf)) = io_trace dbf @ [c]"
  "snapfd0 (snd (sys env c dbf)) = snapfd0 dbf"
  "snapfd1 (snd (sys env c dbf)) = snapfd1 dbf"
  "eo (snd (sys env c dbf)) = eo dbf"
  "desc (snd (sys env c dbf)) = desc dbf"
  by (simp_all add: sys_def Let_def)


lemma case_sysret_ok: "\<not> failed r \<Longrightarrow> (case r of Failure e \<Rightarrow> f e | Success n \<Rightarrow> x) = x"
  by (cases r) (simp_all add: failed_def)

lemma sys_ok:
  "\<not> failed (sys_result env (length (io_trace dbf))) \<Longrightarrow>
     snd (sys env c dbf) = dbf \<lparr> io_trace := io_trace dbf @ [c] \<rparr>"
  by (simp add: sys_def Let_def case_sysret_ok)

lemma sys_or_ok:
  "\<not> failed (sys_result env (length (io_trace dbf))) \<Longrightarrow>
     sys_or env c f k dbf = k (dbf \<lparr> io_trace := io_trace dbf @ [c] \<rparr>)"
  using sys_ok [of env dbf c] by (simp add: sys_or_def split_def)

lemma sys_or_failed:
  "failed (sys_result env (length (io_trace dbf))) \<Longrightarrow>
     sys_or env c f k dbf = f (snd (sys env c dbf))"
  by (simp add: sys_or_def split_def)

lemma sys_or_fst_0:
  "(\<And>d. fst (f d) \<noteq> (0::int)) \<Longrightarrow>
   (fst (sys_or env c f k dbf) = 0) =
     (\<not> failed (sys_result env (length (io_trace dbf)))
      \<and> fst (k (dbf \<lparr> io_trace := io_trace dbf @ [c] \<rparr>)) = 0)"
  by (cases "failed (sys_result env (length (io_trace dbf)))")
     (simp_all add: sys_or_ok sys_or_failed)


lemma gdbm_snapshot_ok_iff:
  assumes "snapfd0 dbf \<ge> 0" and "eo dbf = 0 \<or> eo dbf = 1"
  shows "(fst (gdbm_snapshot env dbf) = 0) = all_ok env (length (io_trace dbf)) 8"
  using assms
  apply (simp only: gdbm_snapshot_def Let_def)
  apply (simp add: sys_or_fst_0)
  apply (simp add: eval_nat_numeral)
  done

lemma all_ok_8:
  "all_ok env n 8 =
    (\<not> failed (sys_result env n) \<and> \<not> failed (sys_result env (Suc n)) \<and>
     \<not> failed (sys_result env (Suc (Suc n))) \<and> \<not> failed (sys_result env (Suc (Suc (Suc n)))) \<and>
     \<not> failed (sys_result env (Suc (Suc (Suc (Suc n))))) \<and>
     \<not> failed (sys_result env (Suc (Suc (Suc (Suc (Suc n)))))) \<and>
     \<not> failed (sys_result env (Suc (Suc (Suc (Suc (Suc (Suc n))))))) \<and>
     \<not> failed (sys_result env (Suc (Suc (Suc (Suc (Suc (Suc (Suc n)))))))))"
  by (simp add: eval_nat_numeral)

lemma gdbm_snapshot_ok_state:
  assumes "snapfd0 dbf \<ge> 0" and "eo dbf = 0 \<or> eo dbf = 1"
    and "all_ok env (length (io_trace dbf)) 8"
  shows "io_trace (snd (gdbm_snapshot env dbf)) = io_trace dbf @
                   snapshot_calls (snapfd dbf (eo dbf)) (snapfd dbf (1 - eo dbf)) (desc dbf)"
    and "eo (snd (gdbm_snapshot env dbf)) = 1 - eo dbf"
    and "snapfd0 (snd (gdbm_snapshot env dbf)) = snapfd0 dbf"
    and "snapfd1 (snd (gdbm_snapshot env dbf)) = snapfd1 dbf"
  using assms unfolding all_ok_8
  apply (simp_all only: gdbm_snapshot_def Let_def)
  apply (auto simp add: sys_or_ok snapshot_calls_def snapfd_def)
  done
lemma all_ok_Suc: "all_ok env n (Suc k) = (\<not> failed (sys_result env n) \<and> all_ok env (Suc n) k)"
  by simp

subsection \<open>Arming the snapshot protocol\<close>

definition ret_fd :: "sysret \<Rightarrow> int" where
  "ret_fd r = (case r of Success n \<Rightarrow> int n | Failure _ \<Rightarrow> -1)"

text \<open>
  The inner loop of \<^verbatim>\<open>fsync_to_root\<close>, \<^verbatim>\<open>do --end; while (path < end && end[-1] != '/')\<close>,
  after the first decrement: \<open>e\<close> is the offset of \<^verbatim>\<open>end\<close> in \<^verbatim>\<open>path\<close>.
\<close>

fun back_to_slash :: "string \<Rightarrow> nat \<Rightarrow> nat" where
  "back_to_slash path 0 = 0"
| "back_to_slash path (Suc e) =
     (if path ! e \<noteq> CHR ''/'' then back_to_slash path e else Suc e)"

lemma back_to_slash_le: "back_to_slash path e \<le> e"
  by (induction e) auto

function fsync_to_root_loop ::
  "io_env \<Rightarrow> string \<Rightarrow> nat \<Rightarrow> open_flags \<Rightarrow> gdbm_file \<Rightarrow> gdbm_error \<times> gdbm_file" where
  "fsync_to_root_loop env path e flags dbf =
     (if 0 < e then
        (case sys env (Sys_open (take e path) flags) dbf of
           (r, dbf1) \<Rightarrow>
             if failed r then (GDBM_FILE_OPEN_ERROR, dbf1)
             else
               (case sys env (Sys_fsync (ret_fd r)) dbf1 of
                  (r2, dbf2) \<Rightarrow>
                    if failed r2 then
                      (GDBM_FILE_SYNC_ERROR,
                       (snd (sys env (Sys_close (ret_fd r)) dbf2)) \<lparr> c_errno := c_errno dbf2 \<rparr>)
                    else
                      (case sys env (Sys_close (ret_fd r)) dbf2 of
                         (r3, dbf3) \<Rightarrow>
                           if failed r3 then (GDBM_FILE_CLOSE_ERROR, dbf3)
                           else fsync_to_root_loop env path (back_to_slash path (e - 1))
                                  O_RDONLY dbf3)))
      else (GDBM_NO_ERROR, dbf))"
  by pat_completeness auto
termination
proof (relation "measure (\<lambda>(env, path, e, flags, dbf). e)")
  show "wf (measure (\<lambda>(env, path, e, flags, dbf). e))" by simp
next
  fix env :: io_env and path :: string and e :: nat and flags :: open_flags and dbf :: gdbm_file
    and x r dbf1 x2 r2 dbf2 x3 r3 dbf3
  assume "0 < e"
  then show "((env, path, back_to_slash path (e - 1), O_RDONLY, dbf3), (env, path, e, flags, dbf))
      \<in> measure (\<lambda>(env, path, e, flags, dbf). e)"
    using back_to_slash_le [of path "e - 1"] by simp
qed

declare fsync_to_root_loop.simps [simp del]

definition fsync_to_root :: "io_env \<Rightarrow> string \<Rightarrow> gdbm_file \<Rightarrow> gdbm_error \<times> gdbm_file" where
  "fsync_to_root env f dbf =
     (case env_realpath env f of
        None \<Rightarrow> (GDBM_ERR_REALPATH, dbf)
      | Some path \<Rightarrow> fsync_to_root_loop env path (length path) O_WRONLY dbf)"

text \<open>
  Modelled from the spec: \<^verbatim>\<open>GDBM_ASSERT_CONSISTENCY\<close> is a macro of a header that is not
  among the sources. A handle that needs recovery rejects the operation with
  \<^verbatim>\<open>GDBM_NEED_RECOVERY\<close>; the macro is written out at its uses.
\<close>

text \<open>
  \<^verbatim>\<open>gdbm_failure_atomic (dbf, even, odd)\<close>; a \<^verbatim>\<open>NULL\<close> name is \<open>None\<close>. \<open>disarm\<close> is
  the common exit \<^verbatim>\<open>_gdbmsync_done (dbf); _gdbmsync_init (dbf); return -1\<close>.
\<close>

definition disarm :: "io_env \<Rightarrow> gdbm_file \<Rightarrow> int \<times> gdbm_file" where
  "disarm env dbf = (-1, gdbmsync_init (gdbmsync_done env dbf))"

definition gdbm_failure_atomic ::
  "io_env \<Rightarrow> gdbm_file \<Rightarrow> string option \<Rightarrow> string option \<Rightarrow> int \<times> gdbm_file" where
  "gdbm_failure_atomic env dbf even_name odd_name =
     (if need_recovery dbf then (-1, GDBM_SET_ERRNO dbf GDBM_NEED_RECOVERY True)
      else if even_name = None \<or> odd_name = None \<or> even_name = odd_name then
        (-1, GDBM_SET_ERRNO (dbf \<lparr> c_errno := EINVAL \<rparr>) GDBM_ERR_USAGE False)
      else
        let dbf = (if snapfd0 dbf \<noteq> -1 then gdbmsync_init (gdbmsync_done env dbf) else dbf);
            (r, dbf) = sys env (Sys_open (the even_name) O_WRONLY_CREAT_EXCL) dbf;
            dbf = dbf \<lparr> snapfd0 := ret_fd r \<rparr>
        in
        if snapfd0 dbf = -1 then disarm env (GDBM_SET_ERRNO dbf GDBM_FILE_OPEN_ERROR False)
        else
          let (r, dbf) = sys env (Sys_open (the odd_name) O_WRONLY_CREAT_EXCL) dbf;
              dbf = dbf \<lparr> snapfd1 := ret_fd r \<rparr>
          in
          if snapfd1 dbf = -1 then disarm env (GDBM_SET_ERRNO dbf GDBM_FILE_OPEN_ERROR False)
          else
            let (r, dbf) = fsync_to_root env (the even_name) dbf in
            if r \<noteq> GDBM_NO_ERROR then disarm env (GDBM_SET_ERRNO dbf r False)
            else
              let (r, dbf) = fsync_to_root env (the odd_name) dbf in
              if r \<noteq> GDBM_NO_ERROR then disarm env (GDBM_SET_ERRNO dbf r False)
              else
                let dbf = dbf \<lparr> eo := 0 \<rparr>;
                    (rc, dbf) = gdbm_snapshot env dbf
                in if rc = 0 then (0, dbf) else disarm env dbf)"

lemma gdbmsync_init_simps [simp]:
  "snapfd0 (gdbmsync_init d) = -1" "snapfd1 (gdbmsync_init d) = -1" "eo (gdbmsync_init d) = 0"
  "io_trace (gdbmsync_init d) = io_trace d"
  by (simp_all add: gdbmsync_init_def)

lemma failure_atomic_unarmed:
  assumes "fst (gdbm_failure_atomic env dbf (Some e) (Some od)) \<noteq> 0" "\<not> need_recovery dbf" "e \<noteq> od"
  shows "snapfd0 (snd (gdbm_failure_atomic env dbf (Some e) (Some od))) = -1"
        "snapfd1 (snd (gdbm_failure_atomic env dbf (Some e) (Some od))) = -1"
        "eo (snd (gdbm_failure_atomic env dbf (Some e) (Some od))) = 0"
  using assms
  by (simp_all add: gdbm_failure_atomic_def Let_def split_def disarm_def split: if_splits)
text \<open>
  The invariant of a run that holds the descriptors \<open>a\<close> and \<open>b\<close>: either the handle
  still has them in \<^verbatim>\<open>snapfd\<close>, or the handle is un-armed and both were closed by calls
  made after the first \<open>n\<close> calls of the trace.
\<close>

definition snap_closed :: "int \<Rightarrow> int \<Rightarrow> nat \<Rightarrow> gdbm_file \<Rightarrow> bool" where
  "snap_closed a b n d =
     (n \<le> length (io_trace d) \<and>
      ((snapfd0 d = a \<and> snapfd1 d = b) \<or>
       (snapfd0 d = -1 \<and> snapfd1 d = -1 \<and>
        Sys_close a \<in> set (drop n (io_trace d)) \<and> Sys_close b \<in> set (drop n (io_trace d)))))"

lemma snap_closed_sys: "snap_closed a b n d \<Longrightarrow> snap_closed a b n (snd (sys env c d))"
  by (auto simp: snap_closed_def)

lemma snap_closed_upd [simp]:
  "snap_closed a b n (d \<lparr> c_errno := x \<rparr>) = snap_closed a b n d"
  "snap_closed a b n (d \<lparr> eo := y \<rparr>) = snap_closed a b n d"
  "snap_closed a b n (GDBM_SET_ERRNO d ec f) = snap_closed a b n d"
  by (simp_all add: snap_closed_def GDBM_SET_ERRNO_def)

lemma gdbmsync_done_trace:
  "io_trace (gdbmsync_done env d) = io_trace d
     @ (if snapfd0 d \<ge> 0 then [Sys_close (snapfd0 d)] else [])
     @ (if snapfd1 d \<ge> 0 then [Sys_close (snapfd1 d)] else [])"
  by (simp add: gdbmsync_done_def Let_def)

lemma snap_closed_disarm:
  assumes "snap_closed a b n d" "0 \<le> a" "0 \<le> b"
  shows "snap_closed a b n (gdbmsync_init (gdbmsync_done env d))"
    and "Sys_close a \<in> set (drop n (io_trace (gdbmsync_init (gdbmsync_done env d))))"
    and "Sys_close b \<in> set (drop n (io_trace (gdbmsync_init (gdbmsync_done env d))))"
  using assms by (auto simp: snap_closed_def gdbmsync_done_trace)

lemma snap_closed_sys_or:
  assumes "snap_closed a b n d"
    and "\<And>d'. snap_closed a b n d' \<Longrightarrow> snap_closed a b n (snd (f d'))"
    and "\<And>d'. snap_closed a b n d' \<Longrightarrow> snap_closed a b n (snd (k d'))"
  shows "snap_closed a b n (snd (sys_or env c f k d))"
  using assms snap_closed_sys [of a b n d env c] by (simp add: sys_or_def split_def)

lemma snap_closed_snapshot:
  assumes "snap_closed a b n d" "0 \<le> a" "0 \<le> b"
  shows "snap_closed a b n (snd (gdbm_snapshot env d))"
proof (cases "snapfd0 d < 0")
  case True
  then show ?thesis using assms by (simp add: gdbm_snapshot_def)
next
  case False
  show ?thesis
  proof (cases "eo d = 0 \<or> eo d = 1")
    case no: False
    then show ?thesis using False assms by (simp add: gdbm_snapshot_def snap_closed_disarm(1))
  next
    case True
    have "snap_closed a b n (snd (gdbm_snapshot env d))"
      unfolding gdbm_snapshot_def Let_def if_not_P [OF False] 
      using True apply (simp only: simp_thms if_False)
      by (intro snap_closed_sys_or) (simp_all add: snap_closed_disarm(1) assms)
    then show ?thesis .
  qed
qed
lemma snap_closed_fsync_loop:
  "snap_closed a b n d \<Longrightarrow> snap_closed a b n (snd (fsync_to_root_loop env path e flags d))"
proof (induction env path e flags d rule: fsync_to_root_loop.induct)
  case (1 env path e flags dbf)
  show ?case
  proof (cases "0 < e")
    case False
    then show ?thesis using "1.prems" by (subst fsync_to_root_loop.simps) simp
  next
    case True
    let ?s1 = "sys env (Sys_open (take e path) flags) dbf"
    let ?s2 = "sys env (Sys_fsync (ret_fd (fst ?s1))) (snd ?s1)"
    let ?s3 = "sys env (Sys_close (ret_fd (fst ?s1))) (snd ?s2)"
    have c1: "snap_closed a b n (snd ?s1)" using "1.prems" by (rule snap_closed_sys)
    then have c2: "snap_closed a b n (snd ?s2)" by (rule snap_closed_sys)
    then have c3: "snap_closed a b n (snd ?s3)" by (rule snap_closed_sys)
    show ?thesis
    proof (cases "failed (fst ?s1) \<or> failed (fst ?s2) \<or> failed (fst ?s3)")
      case True
      then show ?thesis using \<open>0 < e\<close> c1 c2 c3
        by (subst fsync_to_root_loop.simps) (auto simp: split_def simp del: sys_simps)
    next
      case False
      then have ok: "\<not> failed (fst ?s1)" "\<not> failed (fst ?s2)" "\<not> failed (fst ?s3)" by auto
      have "snap_closed a b n (snd (fsync_to_root_loop env path (back_to_slash path (e - 1)) O_RDONLY (snd ?s3)))"
        using "1.IH" [OF \<open>0 < e\<close> prod.collapse ok(1) prod.collapse ok(2) prod.collapse ok(3) c3] .
      then show ?thesis using \<open>0 < e\<close> ok
        by (subst fsync_to_root_loop.simps) (simp add: split_def del: sys_simps)
    qed
  qed
qed

lemma snap_closed_fsync_to_root:
  "snap_closed a b n d \<Longrightarrow> snap_closed a b n (snd (fsync_to_root env f d))"
  by (simp add: fsync_to_root_def snap_closed_fsync_loop split: option.splits)
lemma failure_atomic_unfold:
  fixes env :: io_env and dbf :: gdbm_file and e od :: string
  assumes nr: "\<not> need_recovery dbf" and ne: "e \<noteq> od"
  defines "d1 \<equiv> (if snapfd0 dbf \<noteq> -1 then gdbmsync_init (gdbmsync_done env dbf) else dbf)"
  defines "k \<equiv> length (io_trace d1)"
  defines "d2 \<equiv> (snd (sys env (Sys_open e O_WRONLY_CREAT_EXCL) d1)) \<lparr> snapfd0 := ret_fd (sys_result env k) \<rparr>"
  defines "d3 \<equiv> (snd (sys env (Sys_open od O_WRONLY_CREAT_EXCL) d2)) \<lparr> snapfd1 := ret_fd (sys_result env (Suc k)) \<rparr>"
  shows "gdbm_failure_atomic env dbf (Some e) (Some od) =
      (if failed (sys_result env k) then disarm env (GDBM_SET_ERRNO d2 GDBM_FILE_OPEN_ERROR False)
       else if failed (sys_result env (Suc k)) then disarm env (GDBM_SET_ERRNO d3 GDBM_FILE_OPEN_ERROR False)
       else if fst (fsync_to_root env e d3) \<noteq> GDBM_NO_ERROR
         then disarm env (GDBM_SET_ERRNO (snd (fsync_to_root env e d3)) (fst (fsync_to_root env e d3)) False)
       else if fst (fsync_to_root env od (snd (fsync_to_root env e d3))) \<noteq> GDBM_NO_ERROR
         then disarm env (GDBM_SET_ERRNO (snd (fsync_to_root env od (snd (fsync_to_root env e d3))))
                  (fst (fsync_to_root env od (snd (fsync_to_root env e d3)))) False)
       else if fst (gdbm_snapshot env ((snd (fsync_to_root env od (snd (fsync_to_root env e d3)))) \<lparr> eo := 0 \<rparr>)) = 0
         then (0, snd (gdbm_snapshot env ((snd (fsync_to_root env od (snd (fsync_to_root env e d3)))) \<lparr> eo := 0 \<rparr>)))
       else disarm env (snd (gdbm_snapshot env ((snd (fsync_to_root env od (snd (fsync_to_root env e d3)))) \<lparr> eo := 0 \<rparr>))))"
proof -
  have fa: "failed r \<longleftrightarrow> ret_fd r = -1" for r
    by (cases r) (simp_all add: failed_def ret_fd_def)
  have len2: "length (io_trace d2) = Suc k" by (simp add: d2_def k_def)
  show ?thesis
    unfolding gdbm_failure_atomic_def
    apply (simp only: nr ne if_False option.sel option.simps option.inject simp_thms)
    apply (simp only: Let_def split_def d1_def [symmetric])
    apply (simp only: sys_simps k_def [symmetric] d2_def [symmetric] select_convs)
    apply (simp add: fa d2_def d3_def k_def)
    done
qed
lemma failure_atomic_usage:
  assumes "\<not> need_recovery dbf" "even_name = None \<or> odd_name = None \<or> even_name = odd_name"
  shows "gdbm_failure_atomic env dbf even_name odd_name =
           (-1, GDBM_SET_ERRNO (dbf \<lparr> c_errno := EINVAL \<rparr>) GDBM_ERR_USAGE False)"
  using assms by (simp add: gdbm_failure_atomic_def)

lemma drop_Suc_subset: "x \<in> set (drop (Suc n) xs) \<Longrightarrow> x \<in> set (drop n xs)"
proof -
  assume "x \<in> set (drop (Suc n) xs)"
  then have "x \<in> set (drop 1 (drop n xs))" by simp
  then show ?thesis by (rule in_set_dropD)
qed

lemma failure_atomic_closes:
  fixes env :: io_env and dbf :: gdbm_file and e od :: string
  assumes nr: "\<not> need_recovery dbf" and ne: "e \<noteq> od"
    and fail: "fst (gdbm_failure_atomic env dbf (Some e) (Some od)) \<noteq> 0"
  defines "d1 \<equiv> (if snapfd0 dbf \<noteq> -1 then gdbmsync_init (gdbmsync_done env dbf) else dbf)"
  defines "k \<equiv> length (io_trace d1)"
  defines "tr \<equiv> io_trace (snd (gdbm_failure_atomic env dbf (Some e) (Some od)))"
  shows "(\<not> failed (sys_result env k) \<longrightarrow>
           Sys_close (ret_fd (sys_result env k)) \<in> set (drop (Suc k) tr)) \<and>
         (\<not> failed (sys_result env k) \<and> \<not> failed (sys_result env (Suc k)) \<longrightarrow>
           Sys_close (ret_fd (sys_result env (Suc k))) \<in> set (drop (Suc (Suc k)) tr))"
proof (cases "failed (sys_result env k)")
  case True
  then show ?thesis by simp
next
  case ok_a: False
  let ?a = "ret_fd (sys_result env k)"
  let ?b = "ret_fd (sys_result env (Suc k))"
  let ?d2 = "(snd (sys env (Sys_open e O_WRONLY_CREAT_EXCL) d1)) \<lparr> snapfd0 := ?a \<rparr>"
  let ?d3 = "(snd (sys env (Sys_open od O_WRONLY_CREAT_EXCL) ?d2)) \<lparr> snapfd1 := ?b \<rparr>"
  note unfold = failure_atomic_unfold [OF nr ne, of env, folded d1_def, folded k_def]
  have fa: "failed r \<longleftrightarrow> ret_fd r = -1" for r
    by (cases r) (simp_all add: failed_def ret_fd_def)
  have nonneg: "\<not> failed r \<Longrightarrow> 0 \<le> ret_fd r" for r
    by (cases r) (simp_all add: failed_def ret_fd_def)
  have a0: "0 \<le> ?a" using ok_a nonneg by auto
  show ?thesis
  proof (cases "failed (sys_result env (Suc k))")
    case True
    then have b: "?b = -1" using fa by simp
    have "gdbm_failure_atomic env dbf (Some e) (Some od)
                = disarm env (GDBM_SET_ERRNO ?d3 GDBM_FILE_OPEN_ERROR False)"
      using ok_a True unfold by simp
    then have "tr = io_trace d1 @ [Sys_open e O_WRONLY_CREAT_EXCL, Sys_open od O_WRONLY_CREAT_EXCL, Sys_close ?a]"
      using a0 b by (simp add: tr_def disarm_def gdbmsync_done_trace GDBM_SET_ERRNO_def)
    then show ?thesis using ok_a True by (simp add: k_def)
  next
    case ok_b: False
    then have b0: "0 \<le> ?b" using nonneg by auto
    have inv3: "snap_closed ?a ?b (Suc (Suc k)) ?d3"
      by (simp add: snap_closed_def k_def)
    let ?f1 = "fsync_to_root env e ?d3"
    let ?f2 = "fsync_to_root env od (snd ?f1)"
    let ?sn = "gdbm_snapshot env ((snd ?f2) \<lparr> eo := 0 \<rparr>)"
    have i1: "snap_closed ?a ?b (Suc (Suc k)) (snd ?f1)"
      using inv3 by (rule snap_closed_fsync_to_root)
    have i2: "snap_closed ?a ?b (Suc (Suc k)) (snd ?f2)"
      using i1 by (rule snap_closed_fsync_to_root)
    have i3: "snap_closed ?a ?b (Suc (Suc k)) (snd ?sn)"
      using i2 a0 b0 by (intro snap_closed_snapshot) simp_all
    have "\<exists>d. snap_closed ?a ?b (Suc (Suc k)) d \<and>
             snd (gdbm_failure_atomic env dbf (Some e) (Some od)) = gdbmsync_init (gdbmsync_done env d)"
    proof (cases "fst ?f1 \<noteq> GDBM_NO_ERROR")
      case True
      have "snap_closed ?a ?b (Suc (Suc k)) (GDBM_SET_ERRNO (snd ?f1) (fst ?f1) False)"
        using i1 by simp
      moreover have "snd (gdbm_failure_atomic env dbf (Some e) (Some od)) =
           gdbmsync_init (gdbmsync_done env (GDBM_SET_ERRNO (snd ?f1) (fst ?f1) False))"
        using unfold ok_a ok_b True by (simp add: disarm_def)
      ultimately show ?thesis by blast
    next
      case f1: False
      show ?thesis
      proof (cases "fst ?f2 \<noteq> GDBM_NO_ERROR")
        case True
        have "snap_closed ?a ?b (Suc (Suc k)) (GDBM_SET_ERRNO (snd ?f2) (fst ?f2) False)"
          using i2 by simp
        moreover have "snd (gdbm_failure_atomic env dbf (Some e) (Some od)) =
             gdbmsync_init (gdbmsync_done env (GDBM_SET_ERRNO (snd ?f2) (fst ?f2) False))"
          using unfold ok_a ok_b f1 True by (simp add: disarm_def)
        ultimately show ?thesis by blast
      next
        case f2: False
        have ns: "fst ?sn \<noteq> 0"
        proof
          assume "fst ?sn = 0"
          then have "fst (gdbm_failure_atomic env dbf (Some e) (Some od)) = 0"
            using unfold ok_a ok_b f1 f2 by simp
          then show False using fail by simp
        qed
        have "snd (gdbm_failure_atomic env dbf (Some e) (Some od)) =
             gdbmsync_init (gdbmsync_done env (snd ?sn))"
          using unfold ok_a ok_b f1 f2 ns by (simp add: disarm_def)
        then show ?thesis using i3 by blast
      qed
    qed
    then obtain d where d: "snap_closed ?a ?b (Suc (Suc k)) d"
      "snd (gdbm_failure_atomic env dbf (Some e) (Some od)) = gdbmsync_init (gdbmsync_done env d)"
      by blast
    have cl: "Sys_close ?a \<in> set (drop (Suc (Suc k)) tr)" "Sys_close ?b \<in> set (drop (Suc (Suc k)) tr)"
      using snap_closed_disarm(2,3) [OF d(1) a0 b0, of env] d(2) by (simp_all add: tr_def)
    show ?thesis using cl(1) [THEN drop_Suc_subset] cl(2) by simp
  qed
qed
lemma sys_failed_errno:
  "sys_result env (length (io_trace d)) = Failure x \<Longrightarrow> c_errno (snd (sys env c d)) = x"
  by (simp add: sys_def Let_def)

lemma clone_failure_disarms:
  fixes env :: io_env and dbf :: gdbm_file
  defines "k \<equiv> length (io_trace dbf)"
  defines "s \<equiv> snapfd dbf (eo dbf)"
  assumes armed: "snapfd0 dbf \<ge> 0" "snapfd1 dbf \<ge> 0" and eo: "eo dbf = 0 \<or> eo dbf = 1"
    and ok: "\<not> failed (sys_result env k)" "\<not> failed (sys_result env (Suc k))"
            "\<not> failed (sys_result env (Suc (Suc k)))"
    and clone: "sys_result env (Suc (Suc (Suc k))) = Failure x" "x = EINVAL \<or> x = ENOSYS"
  shows "fst (gdbm_file_sync env dbf) = -1"
    and "last_error (snd (gdbm_file_sync env dbf)) = GDBM_ERR_SNAPSHOT_CLONE"
    and "snapfd0 (snd (gdbm_file_sync env dbf)) = -1"
    and "snapfd1 (snd (gdbm_file_sync env dbf)) = -1"
    and "eo (snd (gdbm_file_sync env dbf)) = 0"
    and "io_trace (snd (gdbm_file_sync env dbf)) =
           io_trace dbf @ [Sys_file_sync (desc dbf), Sys_fchmod s S_IWUSR, Sys_fsync s,
                           Sys_ficlone s (desc dbf),
                           Sys_close (snapfd0 dbf), Sys_close (snapfd1 dbf)]"
proof -
  let ?d0 = "dbf \<lparr> io_trace := io_trace dbf @ [Sys_file_sync (desc dbf)] \<rparr>"
  let ?d3 = "dbf \<lparr> eo := (if eo dbf = 0 then 1 else 0),
                 io_trace := io_trace dbf @ [Sys_file_sync (desc dbf), Sys_fchmod s S_IWUSR, Sys_fsync s] \<rparr>"
  let ?d4 = "snd (sys env (Sys_ficlone s (desc dbf)) ?d3)"
  have f3: "failed (sys_result env (length (io_trace ?d3)))"
    using clone by (simp add: k_def failed_def)
  have e4: "c_errno ?d4 = x"
    using clone(1) by (intro sys_failed_errno) (simp add: k_def)
  have "gdbm_file_sync env dbf = gdbm_snapshot env ?d0"
    using ok(1) by (simp add: gdbm_file_sync_def sys_or_ok k_def)
  also have "\<dots> = (-1, GDBM_SET_ERRNO (gdbmsync_init (gdbmsync_done env ?d4)) GDBM_ERR_SNAPSHOT_CLONE False)"
    unfolding gdbm_snapshot_def Let_def
    using armed eo ok(2,3)
    apply (simp add: sys_or_ok k_def s_def snapfd_def)
    using f3 e4 clone(2)
    apply (auto simp add: sys_or_failed s_def snapfd_def)
    done
  finally have r: "gdbm_file_sync env dbf =
      (-1, GDBM_SET_ERRNO (gdbmsync_init (gdbmsync_done env ?d4)) GDBM_ERR_SNAPSHOT_CLONE False)" .
  show "fst (gdbm_file_sync env dbf) = -1" by (simp add: r)
  show "last_error (snd (gdbm_file_sync env dbf)) = GDBM_ERR_SNAPSHOT_CLONE"
    by (simp add: r GDBM_SET_ERRNO_def)
  show "snapfd0 (snd (gdbm_file_sync env dbf)) = -1" by (simp add: r GDBM_SET_ERRNO_def)
  show "snapfd1 (snd (gdbm_file_sync env dbf)) = -1" by (simp add: r GDBM_SET_ERRNO_def)
  show "eo (snd (gdbm_file_sync env dbf)) = 0" by (simp add: r GDBM_SET_ERRNO_def)
  show "io_trace (snd (gdbm_file_sync env dbf)) =
           io_trace dbf @ [Sys_file_sync (desc dbf), Sys_fchmod s S_IWUSR, Sys_fsync s,
                           Sys_ficlone s (desc dbf),
                           Sys_close (snapfd0 dbf), Sys_close (snapfd1 dbf)]"
    using armed by (simp add: r GDBM_SET_ERRNO_def gdbmsync_done_trace)
qed
text \<open>A writer's handle on an open database, un-armed, with nothing cached and no call made.\<close>

definition dbf_open :: gdbm_file where
  "dbf_open = \<lparr> read_write = 1, fast_write = True, file_locking = True,
     lock_type = LOCKING_FLOCK, fatal_err = False,
     desc = 3, header = hdr_512_256, xheader_numsync = Some 0, need_recovery = False,
     last_error = GDBM_NO_ERROR, header_changed = False, directory_changed = False,
     cache = [], cache_size = 4, cache_num = 0, cache_bits = 2, cache_auto = False,
     cache_avail = 0, snapfd0 = -1, snapfd1 = -1, eo = 0,
     g_errno = GDBM_NO_ERROR, c_errno = ENOERR, io_trace = [] \<rparr>"

text \<open>An environment in which every call succeeds, and one whose \<open>n\<close>-th call fails.\<close>

definition env_ok :: io_env where
  "env_ok = \<lparr> sys_result = (\<lambda>n. Success (n + 4)), env_realpath = (\<lambda>p. Some p) \<rparr>"

definition env_fail_at :: "nat \<Rightarrow> errno_code \<Rightarrow> io_env" where
  "env_fail_at k e = \<lparr> sys_result = (\<lambda>n. if n = k then Failure e else Success (n + 4)),
                       env_realpath = (\<lambda>p. Some p) \<rparr>"



section \<open>Writing the cache, the directory and the header (bucket.c, update.c)\<close>

text \<open>
  \<^verbatim>\<open>_gdbm_fatal\<close> calls the fatal-error callback, when one is installed, and exits. A
  function that can reach it returns an option: \<open>None\<close> is the exit of the process.
\<close>

definition gdbm_fatal :: "gdbm_file \<Rightarrow> 'a \<Rightarrow> 'a option" where
  "gdbm_fatal dbf continue = (if fatal_err dbf then None else Some continue)"

text \<open>
  Modelled from the spec: \<^verbatim>\<open>_gdbm_full_write\<close> and \<^verbatim>\<open>_gdbm_file_extend\<close> belong to the
  file I/O shim, which is not among the sources. Each is one call of the environment; a
  failed write or extension is an I/O failure of the write path, which sets the error code
  and marks the handle as needing recovery.
\<close>

definition gdbm_full_write :: "io_env \<Rightarrow> io_buf \<Rightarrow> int \<Rightarrow> gdbm_file \<Rightarrow> bool \<times> gdbm_file" where
  "gdbm_full_write env buf sz dbf =
     sys_or env (Sys_full_write buf sz)
       (\<lambda>dbf. (True, GDBM_SET_ERRNO dbf GDBM_FILE_WRITE_ERROR True))
       (\<lambda>dbf. (False, dbf)) dbf"

definition gdbm_file_extend :: "io_env \<Rightarrow> int \<Rightarrow> gdbm_file \<Rightarrow> bool \<times> gdbm_file" where
  "gdbm_file_extend env sz dbf =
     sys_or env (Sys_file_extend sz)
       (\<lambda>dbf. (True, GDBM_SET_ERRNO dbf GDBM_FILE_WRITE_ERROR True))
       (\<lambda>dbf. (False, dbf)) dbf"

text \<open>
  \<^verbatim>\<open>_gdbm_write_bucket (dbf, ca_entry)\<close>: the return value, the cache element and the
  handle as the call leaves them. \<^verbatim>\<open>gdbm_file_seek\<close> with \<^verbatim>\<open>SEEK_SET\<close> returns the
  requested offset or fails.
\<close>

definition gdbm_write_bucket ::
  "io_env \<Rightarrow> gdbm_file \<Rightarrow> cache_elem \<Rightarrow> (int \<times> cache_elem \<times> gdbm_file) option" where
  "gdbm_write_bucket env dbf ca_entry =
     sys_or env (Sys_lseek (ca_adr ca_entry))
       (\<lambda>dbf. gdbm_fatal dbf (-1, ca_entry, GDBM_SET_ERRNO dbf GDBM_FILE_SEEK_ERROR True))
       (\<lambda>dbf.
          case gdbm_full_write env (Buf_bucket (ca_adr ca_entry)) (bucket_size (header dbf)) dbf of
            (rc, dbf) \<Rightarrow>
              if rc then gdbm_fatal dbf (-1, ca_entry, dbf)
              else Some (0, ca_entry \<lparr> ca_changed := False \<rparr>, dbf))
       dbf"

text \<open>
  \<^verbatim>\<open>_gdbm_cache_flush\<close>: the loop from \<^verbatim>\<open>cache_mru\<close> along \<^verbatim>\<open>ca_next\<close> while the
  element is changed, over the list of cache elements.
\<close>

fun cache_flush_loop ::
  "io_env \<Rightarrow> cache_elem list \<Rightarrow> gdbm_file \<Rightarrow> (int \<times> cache_elem list \<times> gdbm_file) option" where
  "cache_flush_loop env [] dbf = Some (0, [], dbf)"
| "cache_flush_loop env (elem # rest) dbf =
     (if ca_changed elem then
        (case gdbm_write_bucket env dbf elem of
           None \<Rightarrow> None
         | Some (rc, elem', dbf') \<Rightarrow>
             if rc \<noteq> 0 then Some (-1, elem' # rest, dbf')
             else
               (case cache_flush_loop env rest dbf' of
                  None \<Rightarrow> None
                | Some (rc', rest', dbf'') \<Rightarrow> Some (rc', elem' # rest', dbf'')))
      else Some (0, elem # rest, dbf))"

definition gdbm_cache_flush :: "io_env \<Rightarrow> gdbm_file \<Rightarrow> (int \<times> gdbm_file) option" where
  "gdbm_cache_flush env dbf =
     (case cache_flush_loop env (cache dbf) dbf of
        None \<Rightarrow> None
      | Some (rc, elems, dbf') \<Rightarrow> Some (rc, dbf' \<lparr> cache := elems \<rparr>))"

text \<open>\<^verbatim>\<open>write_header\<close> and \<^verbatim>\<open>_gdbm_end_update\<close> of update.c.\<close>

definition write_header :: "io_env \<Rightarrow> gdbm_file \<Rightarrow> (int \<times> gdbm_file) option" where
  "write_header env dbf =
     sys_or env (Sys_lseek 0)
       (\<lambda>dbf. gdbm_fatal dbf (-1, GDBM_SET_ERRNO dbf GDBM_FILE_SEEK_ERROR True))
       (\<lambda>dbf.
          case gdbm_full_write env (Buf_header (xheader_numsync dbf)) (block_size (header dbf)) dbf of
            (rc, dbf) \<Rightarrow>
              if rc then Some (-1, dbf)
              else Some (0, if \<not> fast_write dbf then snd (gdbm_file_sync env dbf) else dbf))
       dbf"

definition end_update_header :: "io_env \<Rightarrow> gdbm_file \<Rightarrow> (int \<times> gdbm_file) option" where
  "end_update_header env dbf =
     (if header_changed dbf then
        (case write_header env dbf of
           None \<Rightarrow> None
         | Some (rc, dbf) \<Rightarrow>
             if rc \<noteq> 0 then Some (-1, dbf)
             else
               (case gdbm_file_extend env (next_block (header dbf)) dbf of
                  (rc, dbf) \<Rightarrow>
                    if rc then Some (-1, dbf)
                    else Some (0, dbf \<lparr> header_changed := False \<rparr>)))
      else Some (0, dbf))"

definition gdbm_end_update :: "io_env \<Rightarrow> gdbm_file \<Rightarrow> (int \<times> gdbm_file) option" where
  "gdbm_end_update env dbf =
     (case gdbm_cache_flush env dbf of
        None \<Rightarrow> None
      | Some (_, dbf) \<Rightarrow>
          if directory_changed dbf then
            sys_or env (Sys_lseek (dir (header dbf)))
              (\<lambda>dbf. gdbm_fatal dbf (-1, GDBM_SET_ERRNO dbf GDBM_FILE_SEEK_ERROR True))
              (\<lambda>dbf.
                 case gdbm_full_write env Buf_dir (dir_size (header dbf)) dbf of
                   (rc, dbf) \<Rightarrow>
                     if rc then gdbm_fatal dbf (-1, dbf)
                     else
                       let dbf = dbf \<lparr> directory_changed := False \<rparr>;
                           dbf = (if \<not> header_changed dbf \<and> \<not> fast_write dbf
                                  then snd (gdbm_file_sync env dbf) else dbf)
                       in end_update_header env dbf)
              dbf
          else end_update_header env dbf)"

text \<open>
  \<^verbatim>\<open>gdbm_sync\<close>. The results of \<^verbatim>\<open>_gdbm_cache_flush\<close> (in \<^verbatim>\<open>_gdbm_end_update\<close>) and
  of \<^verbatim>\<open>_gdbm_end_update\<close> are not looked at.
\<close>

definition gdbm_set_errno :: "gdbm_file \<Rightarrow> gdbm_error \<Rightarrow> bool \<Rightarrow> gdbm_file" where
  "gdbm_set_errno dbf ec fatal = GDBM_SET_ERRNO dbf ec fatal"

definition gdbm_sync :: "io_env \<Rightarrow> gdbm_file \<Rightarrow> (int \<times> gdbm_file) option" where
  "gdbm_sync env dbf =
     (if need_recovery dbf then Some (-1, GDBM_SET_ERRNO dbf GDBM_NEED_RECOVERY True)
      else
        let dbf = gdbm_set_errno dbf GDBM_NO_ERROR False;
            dbf = (case xheader_numsync dbf of
                     None \<Rightarrow> dbf
                   | Some n \<Rightarrow> dbf \<lparr> xheader_numsync := Some (n + 1), header_changed := True \<rparr>)
        in
        case gdbm_end_update env dbf of
          None \<Rightarrow> None
        | Some (_, dbf) \<Rightarrow> Some (gdbm_file_sync env dbf))"
subsection \<open>A sync in which every call succeeds\<close>

definition never_fails :: "io_env \<Rightarrow> bool" where
  "never_fails env = (\<forall>n. \<not> failed (sys_result env n))"

definition bucket_write_calls :: "int \<Rightarrow> cache_elem \<Rightarrow> syscall list" where
  "bucket_write_calls bsz elem =
     [Sys_lseek (ca_adr elem), Sys_full_write (Buf_bucket (ca_adr elem)) bsz]"

text \<open>The calls of a flush: one seek and one write for each element of the dirty prefix.\<close>

definition flush_calls :: "int \<Rightarrow> cache_elem list \<Rightarrow> syscall list" where
  "flush_calls bsz elems = concat (map (bucket_write_calls bsz) (takeWhile ca_changed elems))"

definition flushed :: "cache_elem list \<Rightarrow> cache_elem list" where
  "flushed elems =
     map (\<lambda>e. e \<lparr> ca_changed := False \<rparr>) (takeWhile ca_changed elems) @ dropWhile ca_changed elems"

lemma never_failsD: "never_fails env \<Longrightarrow> \<not> failed (sys_result env n)"
  by (simp add: never_fails_def)

lemma full_write_ok:
  "never_fails env \<Longrightarrow>
     gdbm_full_write env buf sz d = (False, d \<lparr> io_trace := io_trace d @ [Sys_full_write buf sz] \<rparr>)"
  by (simp add: gdbm_full_write_def sys_or_ok never_failsD)

lemma file_extend_ok:
  "never_fails env \<Longrightarrow>
     gdbm_file_extend env sz d = (False, d \<lparr> io_trace := io_trace d @ [Sys_file_extend sz] \<rparr>)"
  by (simp add: gdbm_file_extend_def sys_or_ok never_failsD)

lemma write_bucket_ok:
  "never_fails env \<Longrightarrow>
     gdbm_write_bucket env d elem =
       Some (0, elem \<lparr> ca_changed := False \<rparr>,
             d \<lparr> io_trace := io_trace d @ bucket_write_calls (bucket_size (header d)) elem \<rparr>)"
  by (simp add: gdbm_write_bucket_def sys_or_ok never_failsD full_write_ok bucket_write_calls_def)

lemma cache_flush_loop_ok:
  "never_fails env \<Longrightarrow>
     cache_flush_loop env elems d =
       Some (0, flushed elems,
             d \<lparr> io_trace := io_trace d @ flush_calls (bucket_size (header d)) elems \<rparr>)"
proof (induction elems arbitrary: d)
  case Nil
  then show ?case by (simp add: flushed_def flush_calls_def)
next
  case (Cons elem rest)
  show ?case
  proof (cases "ca_changed elem")
    case False
    then show ?thesis by (simp add: flushed_def flush_calls_def)
  next
    case True
    then show ?thesis
      using Cons.prems Cons.IH [OF Cons.prems]
      by (simp add: write_bucket_ok flushed_def flush_calls_def)
  qed
qed

lemma cache_flush_ok:
  "never_fails env \<Longrightarrow>
     gdbm_cache_flush env d =
       Some (0, d \<lparr> cache := flushed (cache d),
                    io_trace := io_trace d @ flush_calls (bucket_size (header d)) (cache d) \<rparr>)"
  by (simp add: gdbm_cache_flush_def cache_flush_loop_ok)

lemma file_sync_unarmed_ok:
  "never_fails env \<Longrightarrow> snapfd0 d < 0 \<Longrightarrow>
     gdbm_file_sync env d = (0, d \<lparr> io_trace := io_trace d @ [Sys_file_sync (desc d)] \<rparr>)"
  by (simp add: gdbm_file_sync_def sys_or_ok never_failsD gdbm_snapshot_def)
definition header_calls :: "gdbm_file \<Rightarrow> syscall list" where
  "header_calls d =
     (if header_changed d then
        [Sys_lseek 0, Sys_full_write (Buf_header (xheader_numsync d)) (block_size (header d))]
        @ (if \<not> fast_write d then [Sys_file_sync (desc d)] else [])
        @ [Sys_file_extend (next_block (header d))]
      else [])"

definition directory_calls :: "gdbm_file \<Rightarrow> syscall list" where
  "directory_calls d =
     (if directory_changed d then
        [Sys_lseek (dir (header d)), Sys_full_write Buf_dir (dir_size (header d))]
        @ (if \<not> header_changed d \<and> \<not> fast_write d then [Sys_file_sync (desc d)] else [])
      else [])"

definition end_update_calls :: "gdbm_file \<Rightarrow> syscall list" where
  "end_update_calls d =
     flush_calls (bucket_size (header d)) (cache d) @ directory_calls d @ header_calls d"

text \<open>The handle as \<^verbatim>\<open>gdbm_sync\<close> has it when it calls \<^verbatim>\<open>_gdbm_end_update\<close>.\<close>

definition numsync_bumped :: "gdbm_file \<Rightarrow> gdbm_file" where
  "numsync_bumped d =
     (case xheader_numsync d of
        None \<Rightarrow> d
      | Some n \<Rightarrow> d \<lparr> xheader_numsync := Some (n + 1), header_changed := True \<rparr>)"

definition sync_calls :: "gdbm_file \<Rightarrow> syscall list" where
  "sync_calls d = end_update_calls (numsync_bumped d) @ [Sys_file_sync (desc d)]"

lemma write_header_ok:
  assumes "never_fails env" "snapfd0 d < 0"
  shows "write_header env d =
    Some (0, d \<lparr> io_trace := io_trace d @
        [Sys_lseek 0, Sys_full_write (Buf_header (xheader_numsync d)) (block_size (header d))]
        @ (if \<not> fast_write d then [Sys_file_sync (desc d)] else []) \<rparr>)"
  using assms
  by (simp add: write_header_def sys_or_ok never_failsD full_write_ok file_sync_unarmed_ok)

lemma end_update_header_ok:
  assumes "never_fails env" "snapfd0 d < 0"
  shows "end_update_header env d =
    Some (0, d \<lparr> header_changed := False, io_trace := io_trace d @ header_calls d \<rparr>)"
proof (cases "header_changed d")
  case True
  then show ?thesis using assms
    by (simp add: end_update_header_def write_header_ok file_extend_ok header_calls_def)
next
  case False
  have "d \<lparr> header_changed := False, io_trace := io_trace d @ [] \<rparr> = d \<lparr> header_changed := header_changed d \<rparr>"
    using False by simp
  then show ?thesis using False by (simp add: end_update_header_def header_calls_def)
qed

lemma end_update_ok:
  assumes "never_fails env" "snapfd0 d < 0"
  shows "gdbm_end_update env d =
    Some (0, d \<lparr> header_changed := False, directory_changed := False,
                 cache := flushed (cache d),
                 io_trace := io_trace d @ end_update_calls d \<rparr>)"
proof (cases "directory_changed d")
  case True
  then show ?thesis using assms
    by (simp add: gdbm_end_update_def cache_flush_ok sys_or_ok never_failsD full_write_ok
        file_sync_unarmed_ok end_update_header_ok Let_def end_update_calls_def directory_calls_def
        header_calls_def)
next
  case False
  have "\<And>x y z. d \<lparr> header_changed := x, directory_changed := False, cache := y, io_trace := z \<rparr>
        = d \<lparr> header_changed := x, cache := y, io_trace := z \<rparr>"
    using False by simp
  then show ?thesis using False assms
    by (simp add: gdbm_end_update_def cache_flush_ok end_update_header_ok end_update_calls_def
        directory_calls_def header_calls_def)
qed
lemma numsync_bumped_simps [simp]:
  "snapfd0 (numsync_bumped d) = snapfd0 d"
  "io_trace (numsync_bumped d) = io_trace d"
  "desc (numsync_bumped d) = desc d"
  "cache (numsync_bumped d) = cache d"
  "xheader_numsync (numsync_bumped d) = map_option (\<lambda>n. n + 1) (xheader_numsync d)"
  by (simp_all add: numsync_bumped_def split: option.splits)

lemma set_errno_simps [simp]:
  "snapfd0 (GDBM_SET_ERRNO d ec f) = snapfd0 d"
  "io_trace (GDBM_SET_ERRNO d ec f) = io_trace d"
  "desc (GDBM_SET_ERRNO d ec f) = desc d"
  "cache (GDBM_SET_ERRNO d ec f) = cache d"
  "header (GDBM_SET_ERRNO d ec f) = header d"
  "xheader_numsync (GDBM_SET_ERRNO d ec f) = xheader_numsync d"
  "header_changed (GDBM_SET_ERRNO d ec f) = header_changed d"
  "directory_changed (GDBM_SET_ERRNO d ec f) = directory_changed d"
  "fast_write (GDBM_SET_ERRNO d ec f) = fast_write d"
  by (simp_all add: GDBM_SET_ERRNO_def)

lemma gdbm_sync_ok:
  assumes "\<not> need_recovery dbf" "never_fails env" "snapfd0 dbf < 0"
  shows "gdbm_sync env dbf =
    Some (0, (numsync_bumped (gdbm_set_errno dbf GDBM_NO_ERROR False))
               \<lparr> header_changed := False, directory_changed := False,
                 cache := flushed (cache dbf),
                 io_trace := io_trace dbf
                    @ end_update_calls (numsync_bumped (gdbm_set_errno dbf GDBM_NO_ERROR False))
                    @ [Sys_file_sync (desc dbf)] \<rparr>)"
proof -
  let ?d = "numsync_bumped (gdbm_set_errno dbf GDBM_NO_ERROR False)"
  have s: "snapfd0 ?d < 0" using assms(3) by (simp add: gdbm_set_errno_def)
  have "gdbm_sync env dbf =
      (case gdbm_end_update env ?d of None \<Rightarrow> None | Some (_, d') \<Rightarrow> Some (gdbm_file_sync env d'))"
    using assms(1) by (simp add: gdbm_sync_def Let_def numsync_bumped_def)
  then show ?thesis
    using end_update_ok [OF assms(2) s] assms(2) s
    by (simp add: file_sync_unarmed_ok gdbm_set_errno_def)
qed

lemma end_update_calls_set_errno:
  "end_update_calls (numsync_bumped (GDBM_SET_ERRNO dbf ec f)) = end_update_calls (numsync_bumped dbf)"
  by (simp add: end_update_calls_def directory_calls_def header_calls_def numsync_bumped_def
      split: option.splits)

text \<open>
  Claim C5 (as amended). On a handle that does not need recovery and has no snapshot
  armed, a \<^verbatim>\<open>gdbm_sync\<close> in which every call succeeds returns 0 and makes these calls, in
  this order: for each element of the dirty prefix of the cache a seek and a write of its
  bucket; if the directory changed, a seek to \<^verbatim>\<open>header->dir\<close> and the write of the
  directory, followed by a sync of the file only when the header is unchanged and
  \<^verbatim>\<open>fast_write\<close> is off; if the header changed or the extended header is present, a seek
  to offset 0 and the write of the header block, a sync of the file when \<^verbatim>\<open>fast_write\<close>
  is off, and the extension of the file to \<^verbatim>\<open>next_block\<close>; and a final sync of the file.
  With the extended header present, numsync is incremented exactly once and the header
  block written holds the incremented value.
\<close>

theorem sync_order:
  assumes "\<not> need_recovery dbf" "never_fails env" "snapfd0 dbf < 0"
  shows "\<exists>d'. gdbm_sync env dbf = Some (0, d') \<and>
           io_trace d' = io_trace dbf @ sync_calls dbf \<and>
           xheader_numsync d' = map_option (\<lambda>n. n + 1) (xheader_numsync dbf) \<and>
           \<not> header_changed d' \<and> \<not> directory_changed d' \<and>
           cache d' = flushed (cache dbf)"
  using gdbm_sync_ok [OF assms]
  by (simp add: sync_calls_def end_update_calls_set_errno gdbm_set_errno_def)

lemma never_fails_env_ok: "never_fails env_ok"
  by (simp add: never_fails_def env_ok_def failed_def)

definition dbf_dirty :: gdbm_file where
  "dbf_dirty = dbf_open \<lparr> directory_changed := True,
       cache := [\<lparr> ca_adr = 1024, ca_changed = True, ca_hits = 0 \<rparr>,
                 \<lparr> ca_adr = 2048, ca_changed = False, ca_hits = 0 \<rparr>] \<rparr>"

theorem sync_order_witness:
  "\<not> need_recovery dbf_dirty \<and> never_fails env_ok \<and> snapfd0 dbf_dirty < 0 \<and>
   (\<exists>d'. gdbm_sync env_ok dbf_dirty = Some (0, d') \<and>
      io_trace d' =
        [Sys_lseek 1024, Sys_full_write (Buf_bucket 1024) 256,
         Sys_lseek 512, Sys_full_write Buf_dir 64,
         Sys_lseek 0, Sys_full_write (Buf_header (Some 1)) 512, Sys_file_extend 4096,
         Sys_file_sync 3] \<and>
      xheader_numsync d' = Some 1)"
proof -
  have a: "\<not> need_recovery dbf_dirty" "snapfd0 dbf_dirty < 0"
    by (simp_all add: dbf_dirty_def dbf_open_def)
  have c: "sync_calls dbf_dirty = [Sys_lseek 1024, Sys_full_write (Buf_bucket 1024) 256,
         Sys_lseek 512, Sys_full_write Buf_dir 64,
         Sys_lseek 0, Sys_full_write (Buf_header (Some 1)) 512, Sys_file_extend 4096,
         Sys_file_sync 3]"
    by (simp add: sync_calls_def end_update_calls_def flush_calls_def bucket_write_calls_def
        directory_calls_def header_calls_def numsync_bumped_def dbf_dirty_def dbf_open_def
        hdr_512_256_def)
  have n: "xheader_numsync dbf_dirty = Some 0" "io_trace dbf_dirty = []"
    by (simp_all add: dbf_dirty_def dbf_open_def)
  obtain d' where d: "gdbm_sync env_ok dbf_dirty = Some (0, d')"
      "io_trace d' = io_trace dbf_dirty @ sync_calls dbf_dirty"
      "xheader_numsync d' = map_option (\<lambda>n. n + 1) (xheader_numsync dbf_dirty)"
    using sync_order [OF a(1) never_fails_env_ok a(2)] by blast
  have "io_trace d' = [Sys_lseek 1024, Sys_full_write (Buf_bucket 1024) 256,
         Sys_lseek 512, Sys_full_write Buf_dir 64,
         Sys_lseek 0, Sys_full_write (Buf_header (Some 1)) 512, Sys_file_extend 4096,
         Sys_file_sync 3]"
    using d(2) c n by simp
  moreover have "xheader_numsync d' = Some 1" using d(3) n by simp
  ultimately show ?thesis using a never_fails_env_ok d(1) by blast
qed

text \<open>
  The claim as written has an fsync after the write of the directory. With the directory
  and the header both changed the directory write is followed at once by the header
  write; no sync call stands between them.
\<close>

theorem sync_order_counterexample:
  "map_option (\<lambda>r. io_trace (snd r)) (gdbm_sync env_ok (dbf_open \<lparr> directory_changed := True \<rparr>)) =
     Some [Sys_lseek 512, Sys_full_write Buf_dir 64,
           Sys_lseek 0, Sys_full_write (Buf_header (Some 1)) 512, Sys_file_extend 4096,
           Sys_file_sync 3]"
proof -
  let ?d = "dbf_open \<lparr> directory_changed := True \<rparr>"
  have a: "\<not> need_recovery ?d" "snapfd0 ?d < 0" by (simp_all add: dbf_open_def)
  show ?thesis
    unfolding gdbm_sync_ok [OF a(1) never_fails_env_ok a(2)]
    by (simp add: end_update_calls_def flush_calls_def directory_calls_def header_calls_def
        numsync_bumped_def gdbm_set_errno_def GDBM_SET_ERRNO_def dbf_open_def hdr_512_256_def)
qed

section \<open>Closing a handle (gdbmclose.c)\<close>

definition GDBM_READER :: int where "GDBM_READER = 0"

text \<open>
  Handles live in a store: an address holds a handle until \<^verbatim>\<open>free (dbf)\<close>. Using an
  address that holds none is undefined in C; the model makes it an error value.
\<close>

datatype close_error = Use_after_free

text \<open>\<^verbatim>\<open>_gdbm_unlock_file\<close> of lock.c: unlock with the mechanism that took the lock.\<close>

definition gdbm_unlock_file :: "io_env \<Rightarrow> gdbm_file \<Rightarrow> gdbm_file" where
  "gdbm_unlock_file env dbf =
     (if lock_type dbf \<noteq> LOCKING_NONE
      then (snd (sys env (Sys_unlock (lock_type dbf)) dbf)) \<lparr> lock_type := LOCKING_NONE \<rparr>
      else dbf)"

text \<open>
  The body of \<^verbatim>\<open>gdbm_close\<close> up to the frees: the handle as it is when it is freed.
  \<^verbatim>\<open>gdbm_clear_error\<close> is not among the sources; it clears the error of the handle,
  which is freed next, and is left out. \<^verbatim>\<open>_gdbm_mapped_unmap\<close> is one call.
\<close>

definition close_body :: "io_env \<Rightarrow> gdbm_file \<Rightarrow> gdbm_file" where
  "close_body env dbf =
     (let dbf = gdbm_set_errno dbf GDBM_NO_ERROR False in
      if desc dbf \<noteq> -1 then
        let dbf = (if read_write dbf \<noteq> GDBM_READER then snd (gdbm_file_sync env dbf) else dbf);
            dbf = gdbmsync_done env dbf;
            dbf = snd (sys env Sys_mapped_unmap dbf);
            dbf = (if file_locking dbf then gdbm_unlock_file env dbf else dbf)
        in sys_or env (Sys_close (desc dbf))
             (\<lambda>dbf. GDBM_SET_ERRNO dbf GDBM_FILE_CLOSE_ERROR False)
             (\<lambda>dbf. dbf) dbf
      else dbf)"

text \<open>
  \<^verbatim>\<open>gdbm_close (dbf)\<close> on the handle at address \<open>h\<close>: the return value, the store after
  the frees, and the handle as it was when freed (it carries \<^verbatim>\<open>gdbm_errno\<close> and the calls
  made).
\<close>

definition gdbm_close ::
  "io_env \<Rightarrow> (nat \<Rightarrow> gdbm_file option) \<Rightarrow> nat
     \<Rightarrow> close_error + (int \<times> (nat \<Rightarrow> gdbm_file option) \<times> gdbm_file)" where
  "gdbm_close env store h =
     (case store h of
        None \<Rightarrow> Inl Use_after_free
      | Some dbf \<Rightarrow>
          let dbf = close_body env dbf
          in Inr (if g_errno dbf \<noteq> GDBM_NO_ERROR then -1 else 0, store (h := None), dbf))"

text \<open>The calls of a close in which every call succeeds, on a handle with no snapshot armed.\<close>

definition close_calls :: "gdbm_file \<Rightarrow> syscall list" where
  "close_calls d =
     (if desc d \<noteq> -1 then
        (if read_write d \<noteq> GDBM_READER then [Sys_file_sync (desc d)] else [])
        @ [Sys_mapped_unmap]
        @ (if file_locking d \<and> lock_type d \<noteq> LOCKING_NONE then [Sys_unlock (lock_type d)] else [])
        @ [Sys_close (desc d)]
      else [])"

lemma gdbmsync_done_unarmed: "snapfd0 d < 0 \<Longrightarrow> snapfd1 d < 0 \<Longrightarrow> gdbmsync_done env d = d"
  by (simp add: gdbmsync_done_def)

lemma close_body_ok:
  assumes "never_fails env" "snapfd0 d < 0" "snapfd1 d < 0"
  shows "io_trace (close_body env d) = io_trace d @ close_calls d"
    and "g_errno (close_body env d) = GDBM_NO_ERROR"
  using assms
  by (simp_all add: close_body_def Let_def gdbm_set_errno_def GDBM_SET_ERRNO_def
      file_sync_unarmed_ok gdbmsync_done_unarmed sys_ok sys_or_ok never_failsD close_calls_def
      gdbm_unlock_file_def)


definition store_one :: "nat \<Rightarrow> gdbm_file option" where
  "store_one = (\<lambda>h. if h = 7 then Some dbf_open else None)"



section \<open>Redistribution of a split bucket (bucket.c)\<close>

text \<open>
  The constant \<^verbatim>\<open>GDBM_HASH_BITS\<close> is defined in a header that is not among the sources;
  hash values have 31 bits.
\<close>

definition GDBM_HASH_BITS :: int where "GDBM_HASH_BITS = 31"

text \<open>
  \<^verbatim>\<open>_gdbm_new_bucket (dbf, bucket, bits)\<close> on the memory of a cache element: the avail
  count, the bits and the count are set, and the first \<^verbatim>\<open>bucket_elems\<close> slots get the
  hash value \<open>-1\<close>.
\<close>

definition gdbm_new_bucket :: "gdbm_file_header \<Rightarrow> hash_bucket \<Rightarrow> int \<Rightarrow> hash_bucket" where
  "gdbm_new_bucket hdr bucket bits =
     bucket \<lparr> av_count := 0, bucket_bits := bits, count := 0,
              h_table := map (\<lambda>e. e \<lparr> hash_value := -1 \<rparr>)
                           (take (nat (bucket_elems hdr)) (h_table bucket))
                         @ drop (nat (bucket_elems hdr)) (h_table bucket) \<rparr>"

text \<open>
  The probe loop \<^verbatim>\<open>while (bucket->h_table[elem_loc].hash_value != -1) elem_loc = (elem_loc + 1) % bucket_elems\<close>.
  It does not end on a table without an empty slot: \<open>None\<close> is the loop that runs forever.
\<close>

partial_function (option) probe_free :: "bucket_element list \<Rightarrow> int \<Rightarrow> int \<Rightarrow> int option" where
  "probe_free tbl n elem_loc =
     (if hash_value (tbl ! nat elem_loc) \<noteq> -1
      then probe_free tbl n ((elem_loc + 1) mod n)
      else Some elem_loc)"

declare probe_free.simps [code]

text \<open>
  The loop of \<^verbatim>\<open>_gdbm_split_bucket\<close> that copies the elements of the old bucket into the
  two new ones, over the list of old slots; the pair is \<^verbatim>\<open>newcache[0]->ca_bucket\<close>,
  \<^verbatim>\<open>newcache[1]->ca_bucket\<close>.
\<close>

definition select_bit :: "int \<Rightarrow> bucket_element \<Rightarrow> int" where
  "select_bit new_bits old_el =
     (drop_bit (nat (GDBM_HASH_BITS - new_bits)) (hash_value old_el)) AND 1"

fun split_copy ::
  "gdbm_file_header \<Rightarrow> int \<Rightarrow> bucket_element list \<Rightarrow> hash_bucket \<times> hash_bucket
     \<Rightarrow> (gdbm_error + hash_bucket \<times> hash_bucket) option" where
  "split_copy hdr new_bits [] nb = Some (Inr nb)"
| "split_copy hdr new_bits (old_el # rest) (b0, b1) =
     (if hash_value old_el < 0 then Some (Inl GDBM_BAD_BUCKET)
      else
        let bucket = (if select_bit new_bits old_el = 0 then b0 else b1)
        in case probe_free (h_table bucket) (bucket_elems hdr)
                  (hash_value old_el mod bucket_elems hdr) of
             None \<Rightarrow> None
           | Some elem_loc \<Rightarrow>
               let bucket' = bucket \<lparr> h_table := (h_table bucket) [nat elem_loc := old_el],
                                      count := count bucket + 1 \<rparr>
               in split_copy hdr new_bits rest
                    (if select_bit new_bits old_el = 0 then (bucket', b1) else (b0, bucket')))"

text \<open>
  The split of the bucket \<open>old\<close> as far as its slots go: \<open>new_bits\<close>, the two new buckets
  made in the memory \<open>raw0\<close> and \<open>raw1\<close>, and the copy loop.
\<close>

definition split_redistribute ::
  "gdbm_file_header \<Rightarrow> hash_bucket \<Rightarrow> hash_bucket \<Rightarrow> hash_bucket
     \<Rightarrow> (gdbm_error + hash_bucket \<times> hash_bucket) option" where
  "split_redistribute hdr old raw0 raw1 =
     (let new_bits = bucket_bits old + 1
      in split_copy hdr new_bits (take (nat (bucket_elems hdr)) (h_table old))
           (gdbm_new_bucket hdr raw0 new_bits, gdbm_new_bucket hdr raw1 new_bits))"

subsection \<open>The probe finds the first empty slot\<close>

definition occupied :: "bucket_element \<Rightarrow> bool" where
  "occupied s = (hash_value s \<noteq> -1)"

lemma probe_free_steps:
  assumes "0 < n" "0 \<le> loc" "loc < n"
    and "\<not> occupied (tbl ! nat ((loc + int k) mod n))"
    and "\<forall>j<k. occupied (tbl ! nat ((loc + int j) mod n))"
  shows "probe_free tbl n loc = Some ((loc + int k) mod n)"
  using assms
proof (induction k arbitrary: loc)
  case 0
  then show ?case by (subst probe_free.simps) (simp add: occupied_def)
next
  case (Suc k)
  have occ: "occupied (tbl ! nat loc)" using Suc.prems(5) [rule_format, of 0] Suc.prems(1-3) by simp
  let ?l = "(loc + 1) mod n"
  have r: "0 \<le> ?l" "?l < n" using Suc.prems(1) by simp_all
  have e: "(?l + int j) mod n = (loc + int (Suc j)) mod n" for j
    by (simp add: mod_simps add.commute add.left_commute)
  have "probe_free tbl n ?l = Some ((?l + int k) mod n)"
  proof (rule Suc.IH [OF Suc.prems(1) r])
    show "\<not> occupied (tbl ! nat ((?l + int k) mod n))" using Suc.prems(4) by (simp only: e simp_thms)
    show "\<forall>j<k. occupied (tbl ! nat ((?l + int j) mod n))"
    proof (intro allI impI)
      fix j assume "j < k"
      then have "Suc j < Suc k" by simp
      then have "occupied (tbl ! nat ((loc + int (Suc j)) mod n))" using Suc.prems(5) by blast
      then show "occupied (tbl ! nat ((?l + int j) mod n))" by (simp only: e)
    qed
  qed
  then show ?case using occ by (subst probe_free.simps) (simp add: occupied_def e)
qed
lemma probe_free_finds:
  assumes n: "0 < n" and len: "length tbl = nat n" and loc: "0 \<le> loc" "loc < n"
    and free: "\<exists>i<length tbl. \<not> occupied (tbl ! i)"
  shows "\<exists>k. probe_free tbl n loc = Some ((loc + int k) mod n)
            \<and> \<not> occupied (tbl ! nat ((loc + int k) mod n))
            \<and> (\<forall>j<k. occupied (tbl ! nat ((loc + int j) mod n)))"
proof -
  let ?P = "\<lambda>k. \<not> occupied (tbl ! nat ((loc + int k) mod n))"
  from free obtain i where i: "i < length tbl" "\<not> occupied (tbl ! i)" by blast
  let ?k0 = "nat ((int i - loc) mod n)"
  have "(loc + int ?k0) mod n = int i mod n"
    using n by (simp add: mod_simps)
  also have "\<dots> = int i" using i(1) len n by simp
  finally have "?P ?k0" using i(2) by simp
  then have l: "?P (LEAST k. ?P k)" by (rule LeastI)
  have m: "\<forall>j<(LEAST k. ?P k). occupied (tbl ! nat ((loc + int j) mod n))"
    using not_less_Least by blast
  show ?thesis
    using probe_free_steps [OF n loc l m] l m by blast
qed

text \<open>
  The probe-chain property of a slot table: every occupied slot lies on the probe sequence
  that starts at its home slot \<open>hash_value mod n\<close>, and no slot of that sequence before
  it is empty.
\<close>

definition chain_ok :: "int \<Rightarrow> bucket_element list \<Rightarrow> bool" where
  "chain_ok n tbl =
     (\<forall>p<length tbl. occupied (tbl ! p) \<longrightarrow>
        (\<exists>k. p = nat ((hash_value (tbl ! p) mod n + int k) mod n) \<and>
             (\<forall>j\<le>k. occupied (tbl ! nat ((hash_value (tbl ! p) mod n + int j) mod n)))))"

lemma occupied_update:
  assumes "q < length tbl" "occupied el"
  shows "occupied (tbl [i := el] ! q) = (q = i \<or> occupied (tbl ! q))"
  using assms by (cases "q = i") simp_all

lemma chain_ok_insert:
  assumes n: "0 < n" and len: "length tbl = nat n"
    and ok: "chain_ok n tbl" and el: "occupied el"
    and pos: "loc = (hash_value el mod n + int k) mod n"
    and before: "\<forall>j<k. occupied (tbl ! nat ((hash_value el mod n + int j) mod n))"
  shows "chain_ok n (tbl [nat loc := el])"
  unfolding chain_ok_def
proof (intro allI impI)
  fix p
  let ?t = "tbl [nat loc := el]"
  assume p: "p < length ?t" and occ: "occupied (?t ! p)"
  have inr: "nat (x mod n) < length tbl" for x using n len by simp
  have locr: "nat loc < length tbl" unfolding pos by (rule inr)
  have mono: "occupied (tbl ! q) \<Longrightarrow> q < length tbl \<Longrightarrow> occupied (?t ! q)" for q
    using occupied_update [of q tbl el "nat loc"] el by simp
  show "\<exists>k. p = nat ((hash_value (?t ! p) mod n + int k) mod n) \<and>
             (\<forall>j\<le>k. occupied (?t ! nat ((hash_value (?t ! p) mod n + int j) mod n)))"
  proof (cases "p = nat loc")
    case True
    then have eq: "?t ! p = el" using locr by simp
    have "\<forall>j\<le>k. occupied (?t ! nat ((hash_value el mod n + int j) mod n))"
    proof (intro allI impI)
      fix j assume "j \<le> k"
      show "occupied (?t ! nat ((hash_value el mod n + int j) mod n))"
      proof (cases "j = k")
        case True
        then show ?thesis using pos locr el by simp
      next
        case False
        then have "j < k" using \<open>j \<le> k\<close> by simp
        then have "occupied (tbl ! nat ((hash_value el mod n + int j) mod n))" using before by blast
        then show ?thesis by (rule mono) (rule inr)
      qed
    qed
    then show ?thesis using True pos eq by auto
  next
    case False
    then have eq: "?t ! p = tbl ! p" by simp
    then have "occupied (tbl ! p)" using occ by simp
    then obtain k' where k': "p = nat ((hash_value (tbl ! p) mod n + int k') mod n)"
        "\<forall>j\<le>k'. occupied (tbl ! nat ((hash_value (tbl ! p) mod n + int j) mod n))"
      using ok p unfolding chain_ok_def by auto
    have "\<forall>j\<le>k'. occupied (?t ! nat ((hash_value (tbl ! p) mod n + int j) mod n))"
      using k'(2) mono inr by blast
    then show ?thesis using k'(1) eq by auto
  qed
qed

lemma mset_occupied_insert:
  assumes "i < length tbl" "\<not> occupied (tbl ! i)" "occupied el"
  shows "mset (filter occupied (tbl [i := el])) = add_mset el (mset (filter occupied tbl))"
proof -
  have "mset (filter occupied (tbl [i := el])) = filter_mset occupied (mset (tbl [i := el]))"
    by simp
  also have "\<dots> = filter_mset occupied (add_mset el (mset tbl - {#tbl ! i#}))"
    using assms(1) by (simp add: mset_update)
  also have "\<dots> = add_mset el (filter_mset occupied (mset tbl - {#tbl ! i#}))"
    using assms(3) by simp
  also have "filter_mset occupied (mset tbl - {#tbl ! i#}) = filter_mset occupied (mset tbl)"
    using assms(2) by (simp add: filter_diff_mset)
  finally show ?thesis by simp
qed
lemma free_slot_exists:
  assumes "length (filter occupied tbl) < length tbl"
  shows "\<exists>i<length tbl. \<not> occupied (tbl ! i)"
proof -
  have "filter occupied tbl \<noteq> tbl" using assms by auto
  then obtain x where "x \<in> set tbl" "\<not> occupied x" by (auto simp: filter_id_conv)
  then show ?thesis by (auto simp: in_set_conv_nth)
qed

text \<open>One insertion of the copy loop into a bucket that has an empty slot.\<close>

lemma insert_step:
  assumes n: "0 < n" and len: "length (h_table b) = nat n"
    and room: "length (filter occupied (h_table b)) < nat n"
    and el: "0 \<le> hash_value el"
  shows "\<exists>loc. probe_free (h_table b) n (hash_value el mod n) = Some loc \<and>
           length ((h_table b) [nat loc := el]) = nat n \<and>
           mset (filter occupied ((h_table b) [nat loc := el]))
             = add_mset el (mset (filter occupied (h_table b))) \<and>
           (chain_ok n (h_table b) \<longrightarrow> chain_ok n ((h_table b) [nat loc := el]))"
proof -
  let ?home = "hash_value el mod n"
  have occ: "occupied el" using el by (simp add: occupied_def)
  have home: "0 \<le> ?home" "?home < n" using n by simp_all
  have "\<exists>i<length (h_table b). \<not> occupied (h_table b ! i)"
    using room len by (intro free_slot_exists) simp
  from probe_free_finds [OF n len home this]
  obtain k where k: "probe_free (h_table b) n ?home = Some ((?home + int k) mod n)"
      "\<not> occupied (h_table b ! nat ((?home + int k) mod n))"
      "\<forall>j<k. occupied (h_table b ! nat ((?home + int j) mod n))"
    by blast
  let ?loc = "(?home + int k) mod n"
  have r: "nat ?loc < length (h_table b)" using n len by simp
  have "mset (filter occupied ((h_table b) [nat ?loc := el]))
             = add_mset el (mset (filter occupied (h_table b)))"
    using r k(2) occ by (rule mset_occupied_insert)
  moreover have "chain_ok n (h_table b) \<longrightarrow> chain_ok n ((h_table b) [nat ?loc := el])"
    using chain_ok_insert [OF n len _ occ refl k(3)] by blast
  ultimately show ?thesis using k(1) len by auto
qed

lemma length_filter_mset: "length (filter P xs) = size (mset (filter P xs))"
  by (rule size_mset [symmetric])

lemma split_copy_good:
  assumes n: "0 < bucket_elems hdr"
    and len: "length (h_table b0) = nat (bucket_elems hdr)" "length (h_table b1) = nat (bucket_elems hdr)"
    and room: "length (filter occupied (h_table b0)) + length (filter occupied (h_table b1))
                 + length rest \<le> nat (bucket_elems hdr)"
    and good: "\<forall>s\<in>set rest. 0 \<le> hash_value s"
  shows "\<exists>b0' b1'. split_copy hdr nb rest (b0, b1) = Some (Inr (b0', b1')) \<and>
     length (h_table b0') = nat (bucket_elems hdr) \<and> length (h_table b1') = nat (bucket_elems hdr) \<and>
     count b0' = count b0 + int (length (filter (\<lambda>s. select_bit nb s = 0) rest)) \<and>
     count b1' = count b1 + int (length (filter (\<lambda>s. select_bit nb s \<noteq> 0) rest)) \<and>
     mset (filter occupied (h_table b0'))
       = mset (filter occupied (h_table b0)) + mset (filter (\<lambda>s. select_bit nb s = 0) rest) \<and>
     mset (filter occupied (h_table b1'))
       = mset (filter occupied (h_table b1)) + mset (filter (\<lambda>s. select_bit nb s \<noteq> 0) rest) \<and>
     (chain_ok (bucket_elems hdr) (h_table b0) \<longrightarrow> chain_ok (bucket_elems hdr) (h_table b0')) \<and>
     (chain_ok (bucket_elems hdr) (h_table b1) \<longrightarrow> chain_ok (bucket_elems hdr) (h_table b1')) \<and>
     bucket_bits b0' = bucket_bits b0 \<and> bucket_bits b1' = bucket_bits b1"
  using len room good
proof (induction rest arbitrary: b0 b1)
  case Nil
  then show ?case by simp
next
  case (Cons el rest)
  let ?n = "bucket_elems hdr"
  have el: "0 \<le> hash_value el" using Cons.prems(4) by simp
  have good': "\<forall>s\<in>set rest. 0 \<le> hash_value s" using Cons.prems(4) by simp
  show ?case
  proof (cases "select_bit nb el = 0")
    case True
    have room0: "length (filter occupied (h_table b0)) < nat ?n" using Cons.prems(3) by simp
    from insert_step [OF n Cons.prems(1) room0 el]
    obtain loc where loc: "probe_free (h_table b0) ?n (hash_value el mod ?n) = Some loc"
      "length ((h_table b0) [nat loc := el]) = nat ?n"
      "mset (filter occupied ((h_table b0) [nat loc := el]))
             = add_mset el (mset (filter occupied (h_table b0)))"
      "chain_ok ?n (h_table b0) \<longrightarrow> chain_ok ?n ((h_table b0) [nat loc := el])"
      by blast
    let ?b = "b0 \<lparr> h_table := (h_table b0) [nat loc := el], count := count b0 + 1 \<rparr>"
    have sz: "length (filter occupied (h_table ?b)) = Suc (length (filter occupied (h_table b0)))"
      using loc(3) by (simp only: length_filter_mset) simp
    have l: "length (h_table ?b) = nat ?n" using loc(2) by simp
    have r: "length (filter occupied (h_table ?b)) + length (filter occupied (h_table b1))
                 + length rest \<le> nat ?n"
      using Cons.prems(3) sz by simp
    from Cons.IH [OF l Cons.prems(2) r good']
    obtain b0' b1' where ih: "split_copy hdr nb rest (?b, b1) = Some (Inr (b0', b1'))"
      "length (h_table b0') = nat ?n" "length (h_table b1') = nat ?n"
      "count b0' = count ?b + int (length (filter (\<lambda>s. select_bit nb s = 0) rest))"
      "count b1' = count b1 + int (length (filter (\<lambda>s. select_bit nb s \<noteq> 0) rest))"
      "mset (filter occupied (h_table b0'))
         = mset (filter occupied (h_table ?b)) + mset (filter (\<lambda>s. select_bit nb s = 0) rest)"
      "mset (filter occupied (h_table b1'))
         = mset (filter occupied (h_table b1)) + mset (filter (\<lambda>s. select_bit nb s \<noteq> 0) rest)"
      "chain_ok ?n (h_table ?b) \<longrightarrow> chain_ok ?n (h_table b0')"
      "chain_ok ?n (h_table b1) \<longrightarrow> chain_ok ?n (h_table b1')"
      "bucket_bits b0' = bucket_bits ?b" "bucket_bits b1' = bucket_bits b1"
      by blast
    have "split_copy hdr nb (el # rest) (b0, b1) = Some (Inr (b0', b1'))"
      using el True loc(1) ih(1) by (simp add: Let_def)
    then show ?thesis
      using ih(2-11) True loc(3,4) by (intro exI [of _ b0'] exI [of _ b1']) simp
  next
    case False
    have room1: "length (filter occupied (h_table b1)) < nat ?n" using Cons.prems(3) by simp
    from insert_step [OF n Cons.prems(2) room1 el]
    obtain loc where loc: "probe_free (h_table b1) ?n (hash_value el mod ?n) = Some loc"
      "length ((h_table b1) [nat loc := el]) = nat ?n"
      "mset (filter occupied ((h_table b1) [nat loc := el]))
             = add_mset el (mset (filter occupied (h_table b1)))"
      "chain_ok ?n (h_table b1) \<longrightarrow> chain_ok ?n ((h_table b1) [nat loc := el])"
      by blast
    let ?b = "b1 \<lparr> h_table := (h_table b1) [nat loc := el], count := count b1 + 1 \<rparr>"
    have sz: "length (filter occupied (h_table ?b)) = Suc (length (filter occupied (h_table b1)))"
      using loc(3) by (simp only: length_filter_mset) simp
    have l: "length (h_table ?b) = nat ?n" using loc(2) by simp
    have r: "length (filter occupied (h_table b0)) + length (filter occupied (h_table ?b))
                 + length rest \<le> nat ?n"
      using Cons.prems(3) sz by simp
    from Cons.IH [OF Cons.prems(1) l r good']
    obtain b0' b1' where ih: "split_copy hdr nb rest (b0, ?b) = Some (Inr (b0', b1'))"
      "length (h_table b0') = nat ?n" "length (h_table b1') = nat ?n"
      "count b0' = count b0 + int (length (filter (\<lambda>s. select_bit nb s = 0) rest))"
      "count b1' = count ?b + int (length (filter (\<lambda>s. select_bit nb s \<noteq> 0) rest))"
      "mset (filter occupied (h_table b0'))
         = mset (filter occupied (h_table b0)) + mset (filter (\<lambda>s. select_bit nb s = 0) rest)"
      "mset (filter occupied (h_table b1'))
         = mset (filter occupied (h_table ?b)) + mset (filter (\<lambda>s. select_bit nb s \<noteq> 0) rest)"
      "chain_ok ?n (h_table b0) \<longrightarrow> chain_ok ?n (h_table b0')"
      "chain_ok ?n (h_table ?b) \<longrightarrow> chain_ok ?n (h_table b1')"
      "bucket_bits b0' = bucket_bits b0" "bucket_bits b1' = bucket_bits ?b"
      by blast
    have "split_copy hdr nb (el # rest) (b0, b1) = Some (Inr (b0', b1'))"
      using el False loc(1) ih(1) by (simp add: Let_def)
    then show ?thesis
      using ih(2-11) False loc(3,4) by (intro exI [of _ b0'] exI [of _ b1']) simp
  qed
qed
lemma split_copy_bad:
  assumes n: "0 < bucket_elems hdr"
    and len: "length (h_table b0) = nat (bucket_elems hdr)" "length (h_table b1) = nat (bucket_elems hdr)"
    and room: "length (filter occupied (h_table b0)) + length (filter occupied (h_table b1))
                 + length rest \<le> nat (bucket_elems hdr)"
    and bad: "\<exists>s\<in>set rest. hash_value s < 0"
  shows "split_copy hdr nb rest (b0, b1) = Some (Inl GDBM_BAD_BUCKET)"
  using len room bad
proof (induction rest arbitrary: b0 b1)
  case Nil
  then show ?case by simp
next
  case (Cons el rest)
  let ?n = "bucket_elems hdr"
  show ?case
  proof (cases "hash_value el < 0")
    case True
    then show ?thesis by simp
  next
    case False
    then have el: "0 \<le> hash_value el" by simp
    have bad': "\<exists>s\<in>set rest. hash_value s < 0" using Cons.prems(4) False by auto
    show ?thesis
    proof (cases "select_bit nb el = 0")
      case True
      have room0: "length (filter occupied (h_table b0)) < nat ?n" using Cons.prems(3) by simp
      from insert_step [OF n Cons.prems(1) room0 el]
      obtain loc where loc: "probe_free (h_table b0) ?n (hash_value el mod ?n) = Some loc"
        "length ((h_table b0) [nat loc := el]) = nat ?n"
        "mset (filter occupied ((h_table b0) [nat loc := el]))
               = add_mset el (mset (filter occupied (h_table b0)))"
        by blast
      let ?b = "b0 \<lparr> h_table := (h_table b0) [nat loc := el], count := count b0 + 1 \<rparr>"
      have sz: "length (filter occupied (h_table ?b)) = Suc (length (filter occupied (h_table b0)))"
        using loc(3) by (simp only: length_filter_mset) simp
      have l: "length (h_table ?b) = nat ?n" using loc(2) by simp
      have r: "length (filter occupied (h_table ?b)) + length (filter occupied (h_table b1))
                   + length rest \<le> nat ?n"
        using Cons.prems(3) sz by simp
      show ?thesis
        using Cons.IH [OF l Cons.prems(2) r bad'] el True loc(1) by (simp add: Let_def)
    next
      case False
      have room1: "length (filter occupied (h_table b1)) < nat ?n" using Cons.prems(3) by simp
      from insert_step [OF n Cons.prems(2) room1 el]
      obtain loc where loc: "probe_free (h_table b1) ?n (hash_value el mod ?n) = Some loc"
        "length ((h_table b1) [nat loc := el]) = nat ?n"
        "mset (filter occupied ((h_table b1) [nat loc := el]))
               = add_mset el (mset (filter occupied (h_table b1)))"
        by blast
      let ?b = "b1 \<lparr> h_table := (h_table b1) [nat loc := el], count := count b1 + 1 \<rparr>"
      have sz: "length (filter occupied (h_table ?b)) = Suc (length (filter occupied (h_table b1)))"
        using loc(3) by (simp only: length_filter_mset) simp
      have l: "length (h_table ?b) = nat ?n" using loc(2) by simp
      have r: "length (filter occupied (h_table b0)) + length (filter occupied (h_table ?b))
                   + length rest \<le> nat ?n"
        using Cons.prems(3) sz by simp
      show ?thesis
        using Cons.IH [OF Cons.prems(1) l r bad'] el False loc(1) by (simp add: Let_def)
    qed
  qed
qed

lemma new_bucket_props:
  assumes "length (h_table raw) = nat (bucket_elems hdr)"
  shows "length (h_table (gdbm_new_bucket hdr raw bits)) = nat (bucket_elems hdr)"
    and "filter occupied (h_table (gdbm_new_bucket hdr raw bits)) = []"
    and "chain_ok n (h_table (gdbm_new_bucket hdr raw bits))"
    and "count (gdbm_new_bucket hdr raw bits) = 0"
    and "bucket_bits (gdbm_new_bucket hdr raw bits) = bits"
proof -
  have t: "h_table (gdbm_new_bucket hdr raw bits) = map (\<lambda>e. e \<lparr> hash_value := -1 \<rparr>) (h_table raw)"
    using assms by (simp add: gdbm_new_bucket_def)
  show "length (h_table (gdbm_new_bucket hdr raw bits)) = nat (bucket_elems hdr)"
    using assms by (simp add: t)
  show e: "filter occupied (h_table (gdbm_new_bucket hdr raw bits)) = []"
    by (simp add: t filter_empty_conv occupied_def)
  show "chain_ok n (h_table (gdbm_new_bucket hdr raw bits))"
    using e unfolding chain_ok_def by (auto simp: filter_empty_conv)
  show "count (gdbm_new_bucket hdr raw bits) = 0" by (simp add: gdbm_new_bucket_def)
  show "bucket_bits (gdbm_new_bucket hdr raw bits) = bits" by (simp add: gdbm_new_bucket_def)
qed

lemma select_bit_cases: "select_bit nb s = 0 \<or> select_bit nb s = 1"
proof -
  have "x mod 2 = 0 \<or> x mod 2 = 1" for x :: int by presburger
  then show ?thesis by (simp add: select_bit_def and_one_eq)
qed

lemma length_filter_partition:
  "length (filter (\<lambda>s. select_bit nb s = 0) xs) + length (filter (\<lambda>s. select_bit nb s = 1) xs)
     = length xs"
proof -
  have "(\<lambda>s. select_bit nb s = 1) = (\<lambda>s. \<not> select_bit nb s = 0)"
    using select_bit_cases [of nb] by (intro ext) auto
  then show ?thesis using sum_length_filter_compl [of "\<lambda>s. select_bit nb s = 0" xs] by simp
qed
text \<open>
  Claim C3. When \<^verbatim>\<open>_gdbm_split_bucket\<close> splits a bucket whose \<^verbatim>\<open>bucket_elems\<close> slots all
  hold entries, with \<open>new_bits\<close> the old \<^verbatim>\<open>bucket_bits\<close> plus one: the copy loop ends, and
  every slot \<open>s\<close> of the old bucket is stored in exactly one of the two new buckets, the
  one chosen by the bit \<^verbatim>\<open>(s.hash_value >> (31 - new_bits)) & 1\<close>; it is put there by
  linear probing from \<open>s.hash_value mod bucket_elems\<close>, so every entry of a new bucket lies
  on the probe sequence from its home slot with no empty slot before it; the count of each
  new bucket is the number of its entries and the two counts sum to \<^verbatim>\<open>bucket_elems\<close>.
  If a slot of the old bucket has a negative hash value the split fails with
  \<^verbatim>\<open>GDBM_BAD_BUCKET\<close>.
\<close>

theorem split_redistribution:
  assumes n: "0 < bucket_elems hdr"
    and len: "length (h_table old) = nat (bucket_elems hdr)"
             "length (h_table raw0) = nat (bucket_elems hdr)"
             "length (h_table raw1) = nat (bucket_elems hdr)"
    and bits: "0 \<le> bucket_bits old" "bucket_bits old < GDBM_HASH_BITS"
  shows
   "((\<forall>s\<in>set (h_table old). 0 \<le> hash_value s) \<longrightarrow>
       (\<exists>b0 b1. split_redistribute hdr old raw0 raw1 = Some (Inr (b0, b1)) \<and>
          bucket_bits b0 = bucket_bits old + 1 \<and> bucket_bits b1 = bucket_bits old + 1 \<and>
          mset (filter occupied (h_table b0))
            = mset (filter (\<lambda>s. select_bit (bucket_bits old + 1) s = 0) (h_table old)) \<and>
          mset (filter occupied (h_table b1))
            = mset (filter (\<lambda>s. select_bit (bucket_bits old + 1) s = 1) (h_table old)) \<and>
          chain_ok (bucket_elems hdr) (h_table b0) \<and> chain_ok (bucket_elems hdr) (h_table b1) \<and>
          count b0 = int (length (filter occupied (h_table b0))) \<and>
          count b1 = int (length (filter occupied (h_table b1))) \<and>
          count b0 + count b1 = bucket_elems hdr)) \<and>
    ((\<exists>s\<in>set (h_table old). hash_value s < 0) \<longrightarrow>
       split_redistribute hdr old raw0 raw1 = Some (Inl GDBM_BAD_BUCKET))"
proof -
  let ?nb = "bucket_bits old + 1"
  let ?n0 = "gdbm_new_bucket hdr raw0 ?nb"
  let ?n1 = "gdbm_new_bucket hdr raw1 ?nb"
  let ?old = "h_table old"
  note p0 = new_bucket_props [OF len(2)]
  note p1 = new_bucket_props [OF len(3)]
  have tk: "take (nat (bucket_elems hdr)) ?old = ?old" using len(1) by simp
  have sr: "split_redistribute hdr old raw0 raw1 = split_copy hdr ?nb ?old (?n0, ?n1)"
    by (simp add: split_redistribute_def Let_def tk)
  have room: "length (filter occupied (h_table ?n0)) + length (filter occupied (h_table ?n1))
                 + length ?old \<le> nat (bucket_elems hdr)"
    using p0(2) p1(2) len(1) by simp
  have sel1: "(\<lambda>s. select_bit ?nb s \<noteq> 0) = (\<lambda>s. select_bit ?nb s = 1)"
    using select_bit_cases [of ?nb] by (intro ext) auto
  show ?thesis
  proof (intro conjI impI)
    assume good: "\<forall>s\<in>set ?old. 0 \<le> hash_value s"
    from split_copy_good [OF n p0(1) p1(1) room good, of ?nb]
    obtain b0 b1 where r: "split_copy hdr ?nb ?old (?n0, ?n1) = Some (Inr (b0, b1))"
      "count b0 = count ?n0 + int (length (filter (\<lambda>s. select_bit ?nb s = 0) ?old))"
      "count b1 = count ?n1 + int (length (filter (\<lambda>s. select_bit ?nb s \<noteq> 0) ?old))"
      "mset (filter occupied (h_table b0))
         = mset (filter occupied (h_table ?n0)) + mset (filter (\<lambda>s. select_bit ?nb s = 0) ?old)"
      "mset (filter occupied (h_table b1))
         = mset (filter occupied (h_table ?n1)) + mset (filter (\<lambda>s. select_bit ?nb s \<noteq> 0) ?old)"
      "chain_ok (bucket_elems hdr) (h_table ?n0) \<longrightarrow> chain_ok (bucket_elems hdr) (h_table b0)"
      "chain_ok (bucket_elems hdr) (h_table ?n1) \<longrightarrow> chain_ok (bucket_elems hdr) (h_table b1)"
      "bucket_bits b0 = bucket_bits ?n0" "bucket_bits b1 = bucket_bits ?n1"
      by blast
    have m0: "mset (filter occupied (h_table b0)) = mset (filter (\<lambda>s. select_bit ?nb s = 0) ?old)"
      using r(4) p0(2) by simp
    have m1: "mset (filter occupied (h_table b1)) = mset (filter (\<lambda>s. select_bit ?nb s = 1) ?old)"
      using r(5) p1(2) by (simp add: sel1)
    have c0: "count b0 = int (length (filter (\<lambda>s. select_bit ?nb s = 0) ?old))"
      using r(2) p0(4) by simp
    have c1: "count b1 = int (length (filter (\<lambda>s. select_bit ?nb s = 1) ?old))"
      using r(3) p1(4) by (simp add: sel1)
    have l0: "length (filter occupied (h_table b0)) = length (filter (\<lambda>s. select_bit ?nb s = 0) ?old)"
      using m0 by (simp only: length_filter_mset)
    have l1: "length (filter occupied (h_table b1)) = length (filter (\<lambda>s. select_bit ?nb s = 1) ?old)"
      using m1 by (simp only: length_filter_mset)
    have total: "count b0 + count b1 = bucket_elems hdr"
      using c0 c1 length_filter_partition [of ?nb ?old] len(1) n by simp
    show "\<exists>b0 b1. split_redistribute hdr old raw0 raw1 = Some (Inr (b0, b1)) \<and>
          bucket_bits b0 = bucket_bits old + 1 \<and> bucket_bits b1 = bucket_bits old + 1 \<and>
          mset (filter occupied (h_table b0))
            = mset (filter (\<lambda>s. select_bit (bucket_bits old + 1) s = 0) (h_table old)) \<and>
          mset (filter occupied (h_table b1))
            = mset (filter (\<lambda>s. select_bit (bucket_bits old + 1) s = 1) (h_table old)) \<and>
          chain_ok (bucket_elems hdr) (h_table b0) \<and> chain_ok (bucket_elems hdr) (h_table b1) \<and>
          count b0 = int (length (filter occupied (h_table b0))) \<and>
          count b1 = int (length (filter occupied (h_table b1))) \<and>
          count b0 + count b1 = bucket_elems hdr"
      using sr r(1) r(6-9) p0(3,5) p1(3,5) m0 m1 c0 c1 l0 l1 total
      by (intro exI [of _ b0] exI [of _ b1]) simp
  next
    assume bad: "\<exists>s\<in>set ?old. hash_value s < 0"
    show "split_redistribute hdr old raw0 raw1 = Some (Inl GDBM_BAD_BUCKET)"
      using split_copy_bad [OF n p0(1) p1(1) room bad, of ?nb] sr by simp
  qed
qed
definition slot :: "int \<Rightarrow> bucket_element" where
  "slot h = \<lparr> hash_value = h, key_start = [], data_pointer = 0, key_size = 1, data_size = 1 \<rparr>"

definition bucket_of :: "int list \<Rightarrow> hash_bucket" where
  "bucket_of hs = \<lparr> av_count = 0, bucket_avail = [], bucket_bits = 0,
                     count = int (length hs), h_table = map slot hs \<rparr>"

definition hdr_4 :: gdbm_file_header where
  "hdr_4 = \<lparr> block_size = 512, dir = 512, dir_size = 64, dir_bits = 3,
     bucket_size = 256, bucket_elems = 4, next_block = 4096 \<rparr>"

theorem split_redistribution_witness:
  "(\<exists>b0 b1. split_redistribute hdr_4 (bucket_of [5, 1073741825, 9, 1073741827])
               (bucket_of [7, 7, 7, 7]) (bucket_of [8, 8, 8, 8]) = Some (Inr (b0, b1)) \<and>
      count b0 = 2 \<and> count b1 = 2 \<and>
      mset (filter occupied (h_table b0)) = {# slot 5, slot 9 #} \<and>
      mset (filter occupied (h_table b1)) = {# slot 1073741825, slot 1073741827 #}) \<and>
   split_redistribute hdr_4 (bucket_of [5, -3, 9, 1073741827])
               (bucket_of [7, 7, 7, 7]) (bucket_of [8, 8, 8, 8]) = Some (Inl GDBM_BAD_BUCKET)"
proof -
  let ?old = "bucket_of [5, 1073741825, 9, 1073741827]"
  let ?bad = "bucket_of [5, -3, 9, 1073741827]"
  let ?r0 = "bucket_of [7, 7, 7, 7]"
  let ?r1 = "bucket_of [8, 8, 8, 8]"
  have n: "0 < bucket_elems hdr_4" by (simp add: hdr_4_def)
  have len: "length (h_table ?old) = nat (bucket_elems hdr_4)"
       "length (h_table ?bad) = nat (bucket_elems hdr_4)"
       "length (h_table ?r0) = nat (bucket_elems hdr_4)"
       "length (h_table ?r1) = nat (bucket_elems hdr_4)"
    by (simp_all add: hdr_4_def bucket_of_def)
  have bits: "0 \<le> bucket_bits ?old" "bucket_bits ?old < GDBM_HASH_BITS"
       "0 \<le> bucket_bits ?bad" "bucket_bits ?bad < GDBM_HASH_BITS"
    by (simp_all add: bucket_of_def GDBM_HASH_BITS_def)
  have good: "\<forall>s\<in>set (h_table ?old). 0 \<le> hash_value s"
    by (simp add: bucket_of_def slot_def)
  have bad: "\<exists>s\<in>set (h_table ?bad). hash_value s < 0"
    by (simp add: bucket_of_def slot_def)
  have sel: "select_bit 1 (slot 5) = 0" "select_bit 1 (slot 9) = 0"
     "select_bit 1 (slot 1073741825) = 1" "select_bit 1 (slot 1073741827) = 1"
    by (simp_all add: select_bit_def slot_def GDBM_HASH_BITS_def drop_bit_eq_div and_one_eq)
  note t = split_redistribution [OF n len(1) len(3) len(4) bits(1,2)]
  note u = split_redistribution [OF n len(2) len(3) len(4) bits(3,4)]
  from t good obtain b0 b1 where r:
      "split_redistribute hdr_4 ?old ?r0 ?r1 = Some (Inr (b0, b1))"
      "mset (filter occupied (h_table b0))
            = mset (filter (\<lambda>s. select_bit (bucket_bits ?old + 1) s = 0) (h_table ?old))"
      "mset (filter occupied (h_table b1))
            = mset (filter (\<lambda>s. select_bit (bucket_bits ?old + 1) s = 1) (h_table ?old))"
      "count b0 = int (length (filter occupied (h_table b0)))"
      "count b1 = int (length (filter occupied (h_table b1)))"
    by blast
  have m0: "mset (filter occupied (h_table b0)) = {# slot 5, slot 9 #}"
    using r(2) sel by (simp add: bucket_of_def)
  have m1: "mset (filter occupied (h_table b1)) = {# slot 1073741825, slot 1073741827 #}"
    using r(3) sel by (simp add: bucket_of_def)
  have c0: "count b0 = 2" using r(4) m0 by (simp only: length_filter_mset) simp
  have c1: "count b1 = 2" using r(5) m1 by (simp only: length_filter_mset) simp
  have "split_redistribute hdr_4 ?bad ?r0 ?r1 = Some (Inl GDBM_BAD_BUCKET)"
    using u bad by blast
  then show ?thesis using r(1) m0 m1 c0 c1 by blast
qed

section \<open>Traversal of the avail stack (avail.c)\<close>

text \<open>
  \<^verbatim>\<open>struct off_map\<close>, the array of visited offsets. \<open>map_base\<close> is \<open>None\<close> when the
  pointer is \<^verbatim>\<open>NULL\<close>, otherwise it holds the \<open>map_size\<close> cells that were stored so far
  (the cells of the allocation beyond \<open>map_size\<close> hold no value yet).
\<close>

record off_map =
  map_base :: "int list option"
  map_size :: nat
  map_max :: nat

definition OFF_MAP_INITIALIZER :: off_map where
  "OFF_MAP_INITIALIZER = \<lparr> map_base = None, map_size = 0, map_max = 0 \<rparr>"

definition map_cells :: "off_map \<Rightarrow> int list" where
  "map_cells omap = (case map_base omap of None \<Rightarrow> [] | Some cells \<Rightarrow> cells)"

text \<open>
  \<^verbatim>\<open>size_t\<close> and \<^verbatim>\<open>off_t\<close> have 64 bits, as for \<open>OFF_T_MAX\<close>.
\<close>

definition SIZE_T_MAX :: nat where "SIZE_T_MAX = 2 ^ 64 - 1"
definition sizeof_off_t :: nat where "sizeof_off_t = 8"

text \<open>
  \<^verbatim>\<open>off_map_expand\<close>: the return value, the map and the handle as the call leaves them.
  The handle carries the trace of calls, so the functions that allocate memory take and
  return it. \<^verbatim>\<open>realloc\<close> keeps the cells.
\<close>

definition off_map_expand :: "io_env \<Rightarrow> off_map \<Rightarrow> gdbm_file \<Rightarrow> int \<times> off_map \<times> gdbm_file" where
  "off_map_expand env omap dbf =
     (case (if map_base omap = None
            then Some (if map_max omap = 0 then 64 else map_max omap)
            else if SIZE_T_MAX div 3 * 2 div sizeof_off_t \<le> map_max omap then None
            else Some (map_max omap + (map_max omap + 1) div 2)) of
        None \<Rightarrow> (-1, omap, dbf \<lparr> c_errno := ENOMEM \<rparr>)
      | Some n \<Rightarrow>
          sys_or env (Sys_realloc (n * sizeof_off_t))
            (\<lambda>dbf. (-1, omap, dbf))
            (\<lambda>dbf. (0, omap \<lparr> map_base := Some (map_cells omap), map_max := n \<rparr>, dbf))
            dbf)"

text \<open>
  The binary search of \<^verbatim>\<open>off_map_lookup\<close> with its variables \<^verbatim>\<open>lo\<close> and \<^verbatim>\<open>hi\<close>:
  \<open>None\<close> is the \<^verbatim>\<open>return GDBM_CANNOT_REPLACE\<close> at a cell that holds \<open>n\<close>, \<open>Some\<close>
  carries \<^verbatim>\<open>hi\<close> at the end of the loop.
\<close>

function off_map_search :: "int list \<Rightarrow> int \<Rightarrow> int \<Rightarrow> int \<Rightarrow> int option" where
  "off_map_search base n lo hi =
     (if lo \<le> hi then
        (let mid = (lo + hi) div 2 in
         if base ! nat mid > n then off_map_search base n lo (mid - 1)
         else if base ! nat mid < n then off_map_search base n (mid + 1) hi
         else None)
      else Some hi)"
  by pat_completeness auto

termination
  by (relation "measure (\<lambda>(base, n, lo, hi). nat (hi - lo + 1))") auto

declare off_map_search.simps [simp del]

text \<open>
  \<^verbatim>\<open>off_map_lookup\<close>: the return value, the map and the handle as the call leaves them.
  \<^verbatim>\<open>memmove\<close> and the store at \<^verbatim>\<open>hi\<close> insert \<open>n\<close> before the cell at \<^verbatim>\<open>hi\<close>.
\<close>

definition off_map_lookup ::
  "io_env \<Rightarrow> off_map \<Rightarrow> int \<Rightarrow> gdbm_file \<Rightarrow> gdbm_error \<times> off_map \<times> gdbm_file" where
  "off_map_lookup env omap n dbf =
     (case (if map_size omap \<noteq> 0
            then off_map_search (map_cells omap) n 0 (int (map_size omap) - 1)
            else Some (-1)) of
        None \<Rightarrow> (GDBM_CANNOT_REPLACE, omap, dbf)
      | Some hi \<Rightarrow>
          (case (if map_size omap = map_max omap then off_map_expand env omap dbf
                 else (0, omap, dbf)) of
             (rc, omap, dbf) \<Rightarrow>
               if rc \<noteq> 0 then (GDBM_MALLOC_ERROR, omap, dbf)
               else
                 (let hi = hi + 1 in
                  (GDBM_NO_ERROR,
                   omap \<lparr> map_base :=
                            Some (take (nat hi) (map_cells omap) @ n # drop (nat hi) (map_cells omap)),
                          map_size := map_size omap + 1 \<rparr>,
                   dbf))))"

text \<open>
  Modelled from the spec: \<^verbatim>\<open>_gdbm_avail_block_read\<close> is defined in a file that is not
  among the sources. It reads \<open>sz\<close> bytes at the current position of the file, which is
  one call of the environment, and validates the block read. \<open>file pos\<close> is the block
  image that the file holds at \<open>pos\<close>. A read that fails or meets the end of the file
  sets the error code and marks the handle as needing recovery, and so does a block that
  fails validation.
\<close>

definition gdbm_avail_block_read ::
  "io_env \<Rightarrow> (int \<Rightarrow> avail_block) \<Rightarrow> layout \<Rightarrow> int \<Rightarrow> int \<Rightarrow> gdbm_file
     \<Rightarrow> avail_block option \<times> gdbm_file" where
  "gdbm_avail_block_read env file lay pos sz dbf =
     sys_or env (Sys_full_read sz)
       (\<lambda>dbf. (None, GDBM_SET_ERRNO dbf GDBM_FILE_EOF True))
       (\<lambda>dbf. case gdbm_avail_block_validate lay (header dbf) (read_write dbf \<noteq> 0) (file pos) sz of
                 Inl ec \<Rightarrow> (None, GDBM_SET_ERRNO dbf ec True)
               | Inr blk \<Rightarrow> (Some blk, dbf))
       dbf"

text \<open>
  The callback \<^verbatim>\<open>cb\<close> is \<open>None\<close> when the pointer is \<^verbatim>\<open>NULL\<close>; otherwise it is a
  function of the block and its offset that returns. \<open>cb_stop\<close> is the test
  \<^verbatim>\<open>cb && cb (blk, n, data)\<close>.
\<close>

definition cb_stop :: "(avail_block \<Rightarrow> int \<Rightarrow> int) option \<Rightarrow> avail_block \<Rightarrow> int \<Rightarrow> bool" where
  "cb_stop cb blk n = (case cb of None \<Rightarrow> False | Some f \<Rightarrow> f blk n \<noteq> 0)"

text \<open>
  The \<^verbatim>\<open>while (n)\<close> loop of \<^verbatim>\<open>gdbm_avail_traverse\<close>: the value of \<^verbatim>\<open>rc\<close> and the
  handle at the end of the loop. A loop that does not end has the value \<open>None\<close>.
\<close>

partial_function (option) traverse_loop ::
  "io_env \<Rightarrow> (int \<Rightarrow> avail_block) \<Rightarrow> layout \<Rightarrow> (avail_block \<Rightarrow> int \<Rightarrow> int) option \<Rightarrow> int
     \<Rightarrow> off_map \<Rightarrow> int \<Rightarrow> gdbm_file \<Rightarrow> (int \<times> gdbm_file) option" where
  "traverse_loop env file lay cb sz omap n dbf =
     (if n = 0 then Some (0, dbf)
      else
        case off_map_lookup env omap n dbf of
          (rc, omap, dbf) \<Rightarrow>
            if rc \<noteq> GDBM_NO_ERROR then
              (if rc = GDBM_CANNOT_REPLACE
               then Some (-1, GDBM_SET_ERRNO dbf GDBM_BAD_AVAIL True)
               else Some (-1, GDBM_SET_ERRNO dbf rc False))
            else
              case sys env (Sys_lseek n) dbf of
                (r, dbf) \<Rightarrow>
                  if failed r then Some (-1, GDBM_SET_ERRNO dbf GDBM_FILE_SEEK_ERROR False)
                  else
                    case gdbm_avail_block_read env file lay n sz dbf of
                      (None, dbf) \<Rightarrow> Some (-1, dbf)
                    | (Some blk, dbf) \<Rightarrow>
                        if cb_stop cb blk n then Some (0, dbf)
                        else traverse_loop env file lay cb sz omap (ab_next_block blk) dbf)"

declare traverse_loop.simps [code]

text \<open>
  \<^verbatim>\<open>gdbm_avail_traverse\<close>: the return value and the handle as the call leaves them.
  \<open>avail\<close> and \<open>avail_size\<close> are the fields \<^verbatim>\<open>dbf->avail\<close> and \<^verbatim>\<open>dbf->avail_size\<close> of
  the handle, \<open>hdr_avail_off\<close> is \<^verbatim>\<open>GDBM_HEADER_AVAIL_OFFSET (dbf)\<close>, a macro of a header
  that is not among the sources. The shift by one bit of the unsigned product is the
  division by two.
\<close>

definition gdbm_avail_traverse ::
  "io_env \<Rightarrow> (int \<Rightarrow> avail_block) \<Rightarrow> layout \<Rightarrow> int \<Rightarrow> gdbm_file \<Rightarrow> avail_block \<Rightarrow> int
     \<Rightarrow> (avail_block \<Rightarrow> int \<Rightarrow> int) option \<Rightarrow> (int \<times> gdbm_file) option" where
  "gdbm_avail_traverse env file lay hdr_avail_off dbf avail avail_size cb =
     (if need_recovery dbf then Some (-1, GDBM_SET_ERRNO dbf GDBM_NEED_RECOVERY True)
      else
        case gdbm_avail_block_validate lay (header dbf) (read_write dbf \<noteq> 0) avail avail_size of
          Inl ec \<Rightarrow> Some (-1, GDBM_SET_ERRNO dbf ec True)
        | Inr avail \<Rightarrow>
            (case off_map_lookup env OFF_MAP_INITIALIZER hdr_avail_off dbf of
               (rc, omap, dbf) \<Rightarrow>
                 if rc \<noteq> GDBM_NO_ERROR then Some (-1, GDBM_SET_ERRNO dbf GDBM_MALLOC_ERROR False)
                 else
                   (let sz = (ab_size avail * sizeof_avail_elem lay) div 2 + sizeof_avail_block lay in
                    case sys env (Sys_malloc (nat sz)) dbf of
                      (r, dbf) \<Rightarrow>
                        if failed r then Some (-1, GDBM_SET_ERRNO dbf GDBM_MALLOC_ERROR False)
                        else if cb_stop cb avail 0 then Some (0, dbf)
                        else traverse_loop env file lay cb sz omap (ab_next_block avail) dbf)))"

definition gdbm_avail_verify ::
  "io_env \<Rightarrow> (int \<Rightarrow> avail_block) \<Rightarrow> layout \<Rightarrow> int \<Rightarrow> gdbm_file \<Rightarrow> avail_block \<Rightarrow> int
     \<Rightarrow> (int \<times> gdbm_file) option" where
  "gdbm_avail_verify env file lay hdr_avail_off dbf avail avail_size =
     gdbm_avail_traverse env file lay hdr_avail_off dbf avail avail_size None"

subsection \<open>The traversal ends\<close>

text \<open>
  The map never holds more cells than \<^verbatim>\<open>off_map_expand\<close> is willing to allocate, which
  bounds the number of iterations of the loop.
\<close>

definition map_bound :: nat where
  "map_bound = SIZE_T_MAX div 3 * 2 div sizeof_off_t + (SIZE_T_MAX div 3 * 2 div sizeof_off_t + 1) div 2"

definition map_inv :: "off_map \<Rightarrow> bool" where
  "map_inv omap =
     (map_size omap \<le> map_max omap \<and> map_max omap \<le> map_bound \<and>
      (case map_base omap of
         None \<Rightarrow> map_max omap = 0
       | Some cells \<Rightarrow> 0 < map_max omap \<and> length cells = map_size omap))"

lemma map_inv_initial: "map_inv OFF_MAP_INITIALIZER"
  by (simp add: map_inv_def OFF_MAP_INITIALIZER_def)

lemma map_bound_ge: "64 \<le> map_bound"
  by (simp add: map_bound_def SIZE_T_MAX_def sizeof_off_t_def)

lemma map_inv_cells: "map_inv omap \<Longrightarrow> length (map_cells omap) = map_size omap"
  by (auto simp: map_inv_def map_cells_def split: option.splits)

lemma off_map_expand_ok:
  assumes inv: "map_inv omap" and full: "map_size omap = map_max omap"
    and ex: "off_map_expand env omap dbf = (0, omap', dbf')"
  shows "map_inv omap' \<and> map_size omap' < map_max omap' \<and> map_size omap' = map_size omap
         \<and> map_cells omap' = map_cells omap"
proof (cases "map_base omap")
  case None
  with inv have m: "map_max omap = 0" "map_size omap = 0"
    by (auto simp: map_inv_def)
  from ex None m have "omap' = omap \<lparr> map_base := Some (map_cells omap), map_max := 64 \<rparr>"
    by (auto simp: off_map_expand_def sys_or_def split_def split: if_splits)
  with None m map_bound_ge show ?thesis
    by (simp add: map_inv_def map_cells_def)
next
  case (Some cells)
  with inv have m: "0 < map_max omap" "length cells = map_size omap"
    by (auto simp: map_inv_def)
  from ex Some have lim: "\<not> SIZE_T_MAX div 3 * 2 div sizeof_off_t \<le> map_max omap"
    by (auto simp: off_map_expand_def split: if_splits)
  with ex Some have "omap' = omap \<lparr> map_base := Some (map_cells omap),
                                    map_max := map_max omap + (map_max omap + 1) div 2 \<rparr>"
    by (auto simp: off_map_expand_def sys_or_def split_def split: if_splits)
  with Some m lim full show ?thesis
    by (simp add: map_inv_def map_cells_def map_bound_def)
qed

lemma off_map_lookup_ok:
  assumes inv: "map_inv omap"
    and lk: "off_map_lookup env omap n dbf = (GDBM_NO_ERROR, omap', dbf')"
  shows "map_inv omap' \<and> map_size omap' = map_size omap + 1
         \<and> (\<exists>hi. (if map_size omap \<noteq> 0
                     then off_map_search (map_cells omap) n 0 (int (map_size omap) - 1)
                     else Some (-1)) = Some hi
                 \<and> map_cells omap' = take (nat (hi + 1)) (map_cells omap) @ n # drop (nat (hi + 1)) (map_cells omap))"
proof -
  let ?s = "if map_size omap \<noteq> 0
            then off_map_search (map_cells omap) n 0 (int (map_size omap) - 1) else Some (-1)"
  from lk obtain hi where hi: "?s = Some hi"
    by (cases ?s) (simp_all add: off_map_lookup_def)
  let ?e = "if map_size omap = map_max omap then off_map_expand env omap dbf else (0, omap, dbf)"
  obtain rc om d where e: "?e = (rc, om, d)"
    by (cases ?e) auto
  from lk hi e have rc: "rc = 0"
    by (auto simp: off_map_lookup_def split: if_splits)
  from lk hi e rc have om': "omap' = om \<lparr> map_base :=
        Some (take (nat (hi + 1)) (map_cells om) @ n # drop (nat (hi + 1)) (map_cells om)),
        map_size := map_size om + 1 \<rparr>"
    by (simp add: off_map_lookup_def Let_def)
  have om: "map_inv om \<and> map_size om < map_max om \<and> map_size om = map_size omap
            \<and> map_cells om = map_cells omap"
  proof (cases "map_size omap = map_max omap")
    case True
    with e rc have "off_map_expand env omap dbf = (0, om, d)" by simp
    from off_map_expand_ok [OF inv True this] show ?thesis .
  next
    case False
    with e have "om = omap" by simp
    with inv False show ?thesis by (simp add: map_inv_def)
  qed
  from om have "map_inv om" by simp
  then have len: "length (map_cells om) = map_size om"
    by (rule map_inv_cells)
  from om om' len have "map_inv omap'"
    by (auto simp: map_inv_def split: option.splits)
  with om om' hi show ?thesis
    by (simp add: map_cells_def)
qed

lemma traverse_loop_returns:
  "map_inv omap \<Longrightarrow> \<exists>r. traverse_loop env file lay cb sz omap n dbf = Some r"
proof (induction "map_bound - map_size omap" arbitrary: omap n dbf rule: less_induct)
  case less
  obtain rc om d where lk: "off_map_lookup env omap n dbf = (rc, om, d)"
    by (cases "off_map_lookup env omap n dbf") auto
  obtain r d1 where sk: "sys env (Sys_lseek n) d = (r, d1)"
    by (cases "sys env (Sys_lseek n) d") auto
  obtain b d2 where rd: "gdbm_avail_block_read env file lay n sz d1 = (b, d2)"
    by (cases "gdbm_avail_block_read env file lay n sz d1") auto
  show ?case
  proof (cases "n \<noteq> 0 \<and> rc = GDBM_NO_ERROR \<and> \<not> failed r \<and> b \<noteq> None \<and> \<not> cb_stop cb (the b) n")
    case False
    then show ?thesis
      by (subst traverse_loop.simps) (auto simp: lk sk rd split: option.splits)
  next
    case True
    then obtain blk where b: "b = Some blk" by auto
    from True lk have "off_map_lookup env omap n dbf = (GDBM_NO_ERROR, om, d)" by simp
    from off_map_lookup_ok [OF less.prems this]
    have om: "map_inv om" "map_size om = map_size omap + 1" by auto
    then have "map_size om \<le> map_bound" by (simp add: map_inv_def)
    with om have "map_bound - map_size om < map_bound - map_size omap" by simp
    from less.hyps [OF this om(1)]
    obtain r' where "traverse_loop env file lay cb sz om (ab_next_block blk) d2 = Some r'"
      by blast
    with True b show ?thesis
      by (subst traverse_loop.simps) (simp add: lk sk rd)
  qed
qed

lemma gdbm_avail_traverse_returns:
  "\<exists>r. gdbm_avail_traverse env file lay hdr_avail_off dbf avail avail_size cb = Some r"
proof -
  obtain rc om d where lk: "off_map_lookup env OFF_MAP_INITIALIZER hdr_avail_off dbf = (rc, om, d)"
    by (cases "off_map_lookup env OFF_MAP_INITIALIZER hdr_avail_off dbf") auto
  have inv: "rc = GDBM_NO_ERROR \<Longrightarrow> map_inv om"
    using off_map_lookup_ok [OF map_inv_initial, of env hdr_avail_off dbf om d] lk by simp
  have loop: "rc = GDBM_NO_ERROR \<Longrightarrow> \<exists>r. traverse_loop env file lay cb sz' om n' d' = Some r"
    for sz' n' d'
    by (rule traverse_loop_returns) (rule inv)
  show ?thesis
    using loop
    by (auto simp: gdbm_avail_traverse_def lk Let_def split_def split: sum.splits)
qed

subsection \<open>The visited offsets are kept sorted\<close>

lemma off_map_search_correct:
  "sorted xs \<Longrightarrow> 0 \<le> lo \<Longrightarrow> hi < int (length xs) \<Longrightarrow> lo \<le> hi + 1 \<Longrightarrow>
   (\<forall>i. i < nat lo \<longrightarrow> xs ! i < n) \<Longrightarrow>
   (\<forall>i. nat (hi + 1) \<le> i \<and> i < length xs \<longrightarrow> n < xs ! i) \<Longrightarrow>
   (case off_map_search xs n lo hi of
      None \<Rightarrow> n \<in> set xs
    | Some h \<Rightarrow> - 1 \<le> h \<and> h < int (length xs)
               \<and> (\<forall>i. i < nat (h + 1) \<longrightarrow> xs ! i < n)
               \<and> (\<forall>i. nat (h + 1) \<le> i \<and> i < length xs \<longrightarrow> n < xs ! i))"
proof (induction xs n lo hi rule: off_map_search.induct)
  case (1 base n lo hi)
  show ?case
  proof (cases "lo \<le> hi")
    case False
    with "1.prems" have "lo = hi + 1" by simp
    with "1.prems" False show ?thesis
      by (subst off_map_search.simps) simp
  next
    case True
    define mid where "mid = (lo + hi) div 2"
    from True "1.prems" have m: "lo \<le> mid" "mid \<le> hi" "0 \<le> mid" "nat mid < length base"
      by (auto simp: mid_def)
    from "1.prems" have mono: "\<And>i j. i \<le> j \<Longrightarrow> j < length base \<Longrightarrow> base ! i \<le> base ! j"
      by (simp add: sorted_iff_nth_mono)
    consider (gt) "n < base ! nat mid" | (lt) "base ! nat mid < n" | (eq) "base ! nat mid = n"
      by linarith
    then show ?thesis
    proof cases
      case gt
      have up: "\<forall>i. nat (mid - 1 + 1) \<le> i \<and> i < length base \<longrightarrow> n < base ! i"
      proof (intro allI impI)
        fix i assume "nat (mid - 1 + 1) \<le> i \<and> i < length base"
        then have "base ! nat mid \<le> base ! i" using mono [of "nat mid" i] by simp
        with gt show "n < base ! i" by simp
      qed
      have "case off_map_search base n lo (mid - 1) of
              None \<Rightarrow> n \<in> set base
            | Some h \<Rightarrow> - 1 \<le> h \<and> h < int (length base)
               \<and> (\<forall>i. i < nat (h + 1) \<longrightarrow> base ! i < n)
               \<and> (\<forall>i. nat (h + 1) \<le> i \<and> i < length base \<longrightarrow> n < base ! i)"
        using "1.prems" m up
        by (intro "1.IH" (1) [OF True mid_def gt]) auto
      moreover have "off_map_search base n lo hi = off_map_search base n lo (mid - 1)"
        using True gt by (subst off_map_search.simps) (simp add: mid_def Let_def)
      ultimately show ?thesis by simp
    next
      case lt
      then have ng: "\<not> n < base ! nat mid" by simp
      have low: "\<forall>i. i < nat (mid + 1) \<longrightarrow> base ! i < n"
      proof (intro allI impI)
        fix i assume "i < nat (mid + 1)"
        with m have "i \<le> nat mid" by simp
        then have "base ! i \<le> base ! nat mid" using mono [of i "nat mid"] m by simp
        with lt show "base ! i < n" by simp
      qed
      have "case off_map_search base n (mid + 1) hi of
              None \<Rightarrow> n \<in> set base
            | Some h \<Rightarrow> - 1 \<le> h \<and> h < int (length base)
               \<and> (\<forall>i. i < nat (h + 1) \<longrightarrow> base ! i < n)
               \<and> (\<forall>i. nat (h + 1) \<le> i \<and> i < length base \<longrightarrow> n < base ! i)"
        using "1.prems" m low
        by (intro "1.IH" (2) [OF True mid_def ng lt]) auto
      moreover have "off_map_search base n lo hi = off_map_search base n (mid + 1) hi"
        using True lt by (subst off_map_search.simps) (simp add: mid_def Let_def)
      ultimately show ?thesis by simp
    next
      case eq
      have "off_map_search base n lo hi = None"
        using True eq by (subst off_map_search.simps) (simp add: mid_def Let_def)
      moreover from m eq have "n \<in> set base"
        using nth_mem [of "nat mid" base] by simp
      ultimately show ?thesis by simp
    qed
  qed
qed

definition map_sorted :: "off_map \<Rightarrow> bool" where
  "map_sorted omap = (map_inv omap \<and> sorted (map_cells omap) \<and> distinct (map_cells omap))"

lemma map_sorted_initial: "map_sorted OFF_MAP_INITIALIZER"
  by (simp add: map_sorted_def map_inv_initial) (simp add: map_cells_def OFF_MAP_INITIALIZER_def)

lemma sorted_insert_at:
  assumes s: "sorted xs" and d: "distinct xs"
    and low: "\<forall>i. i < k \<longrightarrow> xs ! i < (n::int)"
    and up: "\<forall>i. k \<le> i \<and> i < length xs \<longrightarrow> n < xs ! i"
    and k: "k \<le> length xs"
  shows "sorted (take k xs @ n # drop k xs) \<and> distinct (take k xs @ n # drop k xs)
         \<and> set (take k xs @ n # drop k xs) = insert n (set xs)"
proof -
  have a: "\<And>x. x \<in> set (take k xs) \<Longrightarrow> x < n"
    using low k by (auto simp: in_set_conv_nth)
  have b: "\<And>y. y \<in> set (drop k xs) \<Longrightarrow> n < y"
  proof -
    fix y assume "y \<in> set (drop k xs)"
    then obtain i where "i < length xs - k" "y = xs ! (k + i)"
      by (auto simp: in_set_conv_nth)
    with up show "n < y" by simp
  qed
  have st: "sorted (take k xs)" "sorted (drop k xs)"
    using s by (simp_all add: sorted_wrt_take sorted_wrt_drop)
  have dt: "distinct (take k xs)" "distinct (drop k xs)"
    using d by simp_all
  have disj: "set (take k xs) \<inter> set (drop k xs) = {}"
    using a b by fastforce
  have srt: "sorted (take k xs @ n # drop k xs)"
    using st a b by (fastforce simp: sorted_append)
  have dst: "distinct (take k xs @ n # drop k xs)"
    using dt a b disj by fastforce
  have "set (take k xs) \<union> set (drop k xs) = set xs"
    using set_append [of "take k xs" "drop k xs"] by simp
  then have "set (take k xs @ n # drop k xs) = insert n (set xs)"
    by auto
  with srt dst show ?thesis by simp
qed

lemma search_whole:
  assumes s: "sorted xs"
  shows "case (if length xs \<noteq> 0 then off_map_search xs n 0 (int (length xs) - 1) else Some (- 1)) of
           None \<Rightarrow> n \<in> set xs
         | Some h \<Rightarrow> nat (h + 1) \<le> length xs
               \<and> (\<forall>i. i < nat (h + 1) \<longrightarrow> xs ! i < n)
               \<and> (\<forall>i. nat (h + 1) \<le> i \<and> i < length xs \<longrightarrow> n < xs ! i)"
proof (cases "length xs \<noteq> 0")
  case True
  have "case off_map_search xs n 0 (int (length xs) - 1) of
      None \<Rightarrow> n \<in> set xs
    | Some h \<Rightarrow> - 1 \<le> h \<and> h < int (length xs)
               \<and> (\<forall>i. i < nat (h + 1) \<longrightarrow> xs ! i < n)
               \<and> (\<forall>i. nat (h + 1) \<le> i \<and> i < length xs \<longrightarrow> n < xs ! i)"
    by (rule off_map_search_correct) (use s in auto)
  with True show ?thesis
    by (auto split: option.splits)
next
  case False
  then show ?thesis by simp
qed

lemma search_found_iff:
  assumes s: "sorted xs"
  shows "((if length xs \<noteq> 0 then off_map_search xs n 0 (int (length xs) - 1) else Some (- 1)) = None)
         = (n \<in> set xs)"
proof -
  let ?r = "if length xs \<noteq> 0 then off_map_search xs n 0 (int (length xs) - 1) else Some (- 1)"
  show ?thesis
  proof (cases ?r)
    case None
    with search_whole [OF s, of n] show ?thesis by simp
  next
    case (Some h)
    with search_whole [OF s, of n]
    have h: "\<forall>i. i < nat (h + 1) \<longrightarrow> xs ! i < n"
            "\<forall>i. nat (h + 1) \<le> i \<and> i < length xs \<longrightarrow> n < xs ! i"
      by simp_all
    have "n \<notin> set xs"
    proof
      assume "n \<in> set xs"
      then obtain i where i: "i < length xs" "xs ! i = n"
        by (auto simp: in_set_conv_nth)
      show False
      proof (cases "i < nat (h + 1)")
        case True
        with h(1) [rule_format, of i] i show False by simp
      next
        case False
        with h(2) [rule_format, of i] i show False by simp
      qed
    qed
    with Some show ?thesis by simp
  qed
qed

text \<open>
  A lookup leaves everything of the handle but the trace of calls and \<^verbatim>\<open>errno\<close> as it
  was.
\<close>

definition same_handle :: "gdbm_file \<Rightarrow> gdbm_file \<Rightarrow> bool" where
  "same_handle dbf dbf' =
     (header dbf' = header dbf \<and> read_write dbf' = read_write dbf
      \<and> need_recovery dbf' = need_recovery dbf \<and> last_error dbf' = last_error dbf
      \<and> g_errno dbf' = g_errno dbf)"

lemma same_handle_refl: "same_handle dbf dbf"
  by (simp add: same_handle_def)

lemma same_handle_trans: "same_handle a b \<Longrightarrow> same_handle b c \<Longrightarrow> same_handle a c"
  by (simp add: same_handle_def)

lemma same_handle_sys: "same_handle dbf (snd (sys env c dbf))"
  by (simp add: same_handle_def sys_def Let_def)

lemma off_map_lookup_found:
  assumes "map_sorted omap" "n \<in> set (map_cells omap)"
  shows "off_map_lookup env omap n dbf = (GDBM_CANNOT_REPLACE, omap, dbf)"
proof -
  from assms have s: "sorted (map_cells omap)" and l: "length (map_cells omap) = map_size omap"
    by (simp_all add: map_sorted_def map_inv_cells)
  have "(if map_size omap \<noteq> 0
         then off_map_search (map_cells omap) n 0 (int (map_size omap) - 1)
         else Some (- 1)) = None"
    using search_found_iff [OF s, THEN iffD2, OF assms(2)] unfolding l .
  then show ?thesis
    unfolding off_map_lookup_def by (simp only: option.case)
qed

lemma off_map_lookup_new:
  assumes ms: "map_sorted omap"
    and lk: "off_map_lookup env omap n dbf = (GDBM_NO_ERROR, omap', dbf')"
  shows "map_sorted omap' \<and> set (map_cells omap') = insert n (set (map_cells omap))
         \<and> map_size omap' = map_size omap + 1"
proof -
  from ms have inv: "map_inv omap" and s: "sorted (map_cells omap)"
    and d: "distinct (map_cells omap)" and l: "length (map_cells omap) = map_size omap"
    by (simp_all add: map_sorted_def map_inv_cells)
  from off_map_lookup_ok [OF inv lk] obtain hi where
    inv': "map_inv omap'" and sz: "map_size omap' = map_size omap + 1"
    and hi: "(if map_size omap \<noteq> 0
              then off_map_search (map_cells omap) n 0 (int (map_size omap) - 1)
              else Some (-1)) = Some hi"
    and cells: "map_cells omap' = take (nat (hi + 1)) (map_cells omap) @ n # drop (nat (hi + 1)) (map_cells omap)"
    by blast
  from hi have hi': "(if length (map_cells omap) \<noteq> 0
              then off_map_search (map_cells omap) n 0 (int (length (map_cells omap)) - 1)
              else Some (-1)) = Some hi"
    by (simp only: l)
  have h: "nat (hi + 1) \<le> length (map_cells omap)"
          "\<forall>i. i < nat (hi + 1) \<longrightarrow> map_cells omap ! i < n"
          "\<forall>i. nat (hi + 1) \<le> i \<and> i < length (map_cells omap) \<longrightarrow> n < map_cells omap ! i"
    using search_whole [OF s, of n] unfolding hi' by simp_all
  from sorted_insert_at [OF s d h(2) h(3) h(1)] cells inv' sz show ?thesis
    by (simp add: map_sorted_def)
qed

subsection \<open>Following a chain of avail blocks\<close>

text \<open>
  The offsets of the first \<open>k\<close> blocks of the chain that starts at offset \<open>n\<close> of the file,
  and the offset that the last of them names as its successor.
\<close>

fun chain :: "(int \<Rightarrow> avail_block) \<Rightarrow> int \<Rightarrow> nat \<Rightarrow> int list" where
  "chain file n 0 = []"
| "chain file n (Suc k) = n # chain file (ab_next_block (file n)) k"

fun chain_end :: "(int \<Rightarrow> avail_block) \<Rightarrow> int \<Rightarrow> nat \<Rightarrow> int" where
  "chain_end file n 0 = n"
| "chain_end file n (Suc k) = chain_end file (ab_next_block (file n)) k"

definition valid_block :: "layout \<Rightarrow> gdbm_file_header \<Rightarrow> bool \<Rightarrow> int \<Rightarrow> avail_block \<Rightarrow> bool" where
  "valid_block lay hdr rw sz blk =
     (case gdbm_avail_block_validate lay hdr rw blk sz of Inl _ \<Rightarrow> False | Inr _ \<Rightarrow> True)"

text \<open>The size of the buffer that \<^verbatim>\<open>gdbm_avail_traverse\<close> reads the blocks into.\<close>

definition traverse_size :: "layout \<Rightarrow> avail_block \<Rightarrow> int" where
  "traverse_size lay avail = (ab_size avail * sizeof_avail_elem lay) div 2 + sizeof_avail_block lay"

definition map_limit :: nat where
  "map_limit = SIZE_T_MAX div 3 * 2 div sizeof_off_t"

lemma validate_keeps:
  "gdbm_avail_block_validate lay hdr rw blk sz = Inr blk' \<Longrightarrow>
     ab_next_block blk' = ab_next_block blk \<and> ab_size blk' = ab_size blk"
  by (auto simp: gdbm_avail_block_validate_def split: if_splits)

lemma valid_blockD:
  "valid_block lay hdr rw sz blk \<Longrightarrow>
     \<exists>blk'. gdbm_avail_block_validate lay hdr rw blk sz = Inr blk'
            \<and> ab_next_block blk' = ab_next_block blk \<and> ab_size blk' = ab_size blk"
  using validate_keeps [of lay hdr rw blk sz]
  by (cases "gdbm_avail_block_validate lay hdr rw blk sz") (simp_all add: valid_block_def)

lemma off_map_expand_succeeds:
  assumes inv: "map_inv omap" and lim: "map_max omap < map_limit"
    and ok: "\<not> failed (sys_result env (length (io_trace dbf)))"
  shows "\<exists>omap'. off_map_expand env omap dbf
           = (0, omap', dbf \<lparr> io_trace := io_trace dbf @ [Sys_realloc (map_max omap' * sizeof_off_t)] \<rparr>)"
  using lim by (simp add: off_map_expand_def sys_or_ok [OF ok] map_limit_def)

lemma off_map_lookup_succeeds:
  assumes ms: "map_sorted omap" and new: "n \<notin> set (map_cells omap)"
    and lim: "map_size omap < map_limit"
    and ok: "\<not> failed (sys_result env (length (io_trace dbf)))"
  shows "\<exists>omap' dbf'. off_map_lookup env omap n dbf = (GDBM_NO_ERROR, omap', dbf')
           \<and> same_handle dbf dbf'"
proof -
  from ms have inv: "map_inv omap" and s: "sorted (map_cells omap)"
    and l: "length (map_cells omap) = map_size omap"
    by (simp_all add: map_sorted_def map_inv_cells)
  let ?r = "if map_size omap \<noteq> 0
            then off_map_search (map_cells omap) n 0 (int (map_size omap) - 1) else Some (- 1)"
  have "?r \<noteq> None"
    using search_found_iff [OF s, of n] new unfolding l by simp
  then obtain hi where hi: "?r = Some hi" by blast
  show ?thesis
  proof (cases "map_size omap = map_max omap")
    case True
    with lim have "map_max omap < map_limit" by simp
    from off_map_expand_succeeds [OF inv this ok] obtain om where
      "off_map_expand env omap dbf
         = (0, om, dbf \<lparr> io_trace := io_trace dbf @ [Sys_realloc (map_max om * sizeof_off_t)] \<rparr>)"
      by blast
    with True hi show ?thesis
      unfolding off_map_lookup_def by (simp add: same_handle_def Let_def)
  next
    case False
    with hi show ?thesis
      unfolding off_map_lookup_def by (simp add: same_handle_def Let_def)
  qed
qed

lemma gdbm_avail_block_read_ok:
  assumes ok: "\<not> failed (sys_result env (length (io_trace dbf)))"
    and v: "valid_block lay (header dbf) (read_write dbf \<noteq> 0) sz (file n)"
  shows "\<exists>blk dbf'. gdbm_avail_block_read env file lay n sz dbf = (Some blk, dbf')
           \<and> ab_next_block blk = ab_next_block (file n) \<and> same_handle dbf dbf'"
proof -
  from valid_blockD [OF v] obtain blk where
    "gdbm_avail_block_validate lay (header dbf) (read_write dbf \<noteq> 0) (file n) sz = Inr blk"
    "ab_next_block blk = ab_next_block (file n)"
    by blast
  then show ?thesis
    by (simp add: gdbm_avail_block_read_def sys_or_ok [OF ok] same_handle_def)
qed

lemma same_handle_valid:
  "same_handle dbf dbf' \<Longrightarrow>
     valid_block lay (header dbf') (read_write dbf' \<noteq> 0) sz blk
       = valid_block lay (header dbf) (read_write dbf \<noteq> 0) sz blk"
  by (simp add: same_handle_def)

lemma traverse_loop_chain:
  assumes nf: "never_fails env" and cb: "\<forall>blk m. \<not> cb_stop cb blk m"
  shows "map_sorted omap \<Longrightarrow> map_size omap + k < map_limit \<Longrightarrow>
     distinct (chain file n k) \<Longrightarrow>
     (\<forall>m\<in>set (chain file n k). m \<noteq> 0 \<and> m \<notin> set (map_cells omap)
         \<and> valid_block lay (header dbf) (read_write dbf \<noteq> 0) sz (file m)) \<Longrightarrow>
     chain_end file n k = 0 \<or> chain_end file n k \<in> set (map_cells omap) \<union> set (chain file n k) \<Longrightarrow>
     \<exists>dbf'. traverse_loop env file lay cb sz omap n dbf
               = Some (if chain_end file n k = 0 then 0 else - 1, dbf')
          \<and> (if chain_end file n k = 0 then same_handle dbf dbf'
              else last_error dbf' = GDBM_BAD_AVAIL \<and> g_errno dbf' = GDBM_BAD_AVAIL
                   \<and> need_recovery dbf')"
proof (induction k arbitrary: omap n dbf)
  case 0
  show ?case
  proof (cases "n = 0")
    case True
    then show ?thesis
      by (subst traverse_loop.simps) (simp add: same_handle_refl)
  next
    case False
    with 0 have "n \<in> set (map_cells omap)" by simp
    from off_map_lookup_found [OF "0.prems" (1) this]
    have "off_map_lookup env omap n dbf = (GDBM_CANNOT_REPLACE, omap, dbf)" .
    with False show ?thesis
      by (subst traverse_loop.simps) (simp add: GDBM_SET_ERRNO_def)
  qed
next
  case (Suc k)
  let ?n' = "ab_next_block (file n)"
  from Suc.prems have n: "n \<noteq> 0" "n \<notin> set (map_cells omap)"
    and v: "valid_block lay (header dbf) (read_write dbf \<noteq> 0) sz (file n)"
    by simp_all
  from nf have ok: "\<And>d. \<not> failed (sys_result env (length (io_trace d)))"
    by (simp add: never_fails_def)
  from Suc.prems have lim: "map_size omap < map_limit" by simp
  from off_map_lookup_succeeds [OF Suc.prems(1) n(2) lim ok]
  obtain om d1 where lk: "off_map_lookup env omap n dbf = (GDBM_NO_ERROR, om, d1)"
    and h1: "same_handle dbf d1"
    by blast
  from off_map_lookup_new [OF Suc.prems(1) lk]
  have om: "map_sorted om" "set (map_cells om) = insert n (set (map_cells omap))"
    "map_size om = map_size omap + 1"
    by simp_all
  obtain r d2 where sk: "sys env (Sys_lseek n) d1 = (r, d2)"
    by (cases "sys env (Sys_lseek n) d1") auto
  from sk ok [of d1] have r: "\<not> failed r"
    by (auto simp: sys_def Let_def)
  from sk same_handle_sys [of d1 env "Sys_lseek n"] have h2: "same_handle d1 d2"
    by simp
  from h1 h2 have h12: "same_handle dbf d2" by (rule same_handle_trans)
  from v have "valid_block lay (header d2) (read_write d2 \<noteq> 0) sz (file n)"
    by (simp add: same_handle_valid [OF h12])
  from gdbm_avail_block_read_ok [of env d2 lay sz "file" n, OF ok this]
  obtain blk d3 where rd: "gdbm_avail_block_read env file lay n sz d2 = (Some blk, d3)"
    and nb: "ab_next_block blk = ?n'" and h3: "same_handle d2 d3"
    by blast
  from h12 h3 have h: "same_handle dbf d3" by (rule same_handle_trans)
  have step: "traverse_loop env file lay cb sz omap n dbf
                = traverse_loop env file lay cb sz om ?n' d3"
    using n cb by (subst traverse_loop.simps) (simp add: lk sk r rd nb)
  have p1: "map_size om + k < map_limit"
    using Suc.prems(2) om by simp
  have p2: "distinct (chain file ?n' k)"
    using Suc.prems(3) by simp
  have p3: "\<forall>m\<in>set (chain file ?n' k). m \<noteq> 0 \<and> m \<notin> set (map_cells om)
         \<and> valid_block lay (header d3) (read_write d3 \<noteq> 0) sz (file m)"
    using Suc.prems(3,4) om by (auto simp: same_handle_valid [OF h])
  have p4: "chain_end file ?n' k = 0
            \<or> chain_end file ?n' k \<in> set (map_cells om) \<union> set (chain file ?n' k)"
    using Suc.prems(5) om by auto
  from Suc.IH [OF om(1) p1 p2 p3 p4] obtain dbf' where
    res: "traverse_loop env file lay cb sz om ?n' d3
            = Some (if chain_end file ?n' k = 0 then 0 else - 1, dbf')"
    and st: "if chain_end file ?n' k = 0 then same_handle d3 dbf'
             else last_error dbf' = GDBM_BAD_AVAIL \<and> g_errno dbf' = GDBM_BAD_AVAIL
                  \<and> need_recovery dbf'"
    by blast
  from st h have "if chain_end file ?n' k = 0 then same_handle dbf dbf'
             else last_error dbf' = GDBM_BAD_AVAIL \<and> g_errno dbf' = GDBM_BAD_AVAIL
                  \<and> need_recovery dbf'"
    by (auto intro: same_handle_trans split: if_splits)
  with step res show ?case by auto
qed

lemma gdbm_avail_traverse_chain:
  assumes nf: "never_fails env" and cb: "\<forall>blk m. \<not> cb_stop cb blk m"
    and nr: "\<not> need_recovery dbf"
    and va: "valid_block lay (header dbf) (read_write dbf \<noteq> 0) avail_size avail"
    and lim: "Suc k < map_limit"
    and di: "distinct (hdr_avail_off # chain file (ab_next_block avail) k)"
    and vb: "\<forall>m\<in>set (chain file (ab_next_block avail) k). m \<noteq> 0
               \<and> valid_block lay (header dbf) (read_write dbf \<noteq> 0) (traverse_size lay avail) (file m)"
    and en: "chain_end file (ab_next_block avail) k = 0
             \<or> chain_end file (ab_next_block avail) k
                  \<in> set (hdr_avail_off # chain file (ab_next_block avail) k)"
  shows "\<exists>dbf'. gdbm_avail_traverse env file lay hdr_avail_off dbf avail avail_size cb
               = Some (if chain_end file (ab_next_block avail) k = 0 then 0 else - 1, dbf')
          \<and> (if chain_end file (ab_next_block avail) k = 0 then same_handle dbf dbf'
              else last_error dbf' = GDBM_BAD_AVAIL \<and> g_errno dbf' = GDBM_BAD_AVAIL
                   \<and> need_recovery dbf')"
proof -
  let ?n = "ab_next_block avail"
  from valid_blockD [OF va] obtain av where
    av: "gdbm_avail_block_validate lay (header dbf) (read_write dbf \<noteq> 0) avail avail_size = Inr av"
    and avn: "ab_next_block av = ?n" and avs: "ab_size av = ab_size avail"
    by blast
  from nf have ok: "\<And>d. \<not> failed (sys_result env (length (io_trace d)))"
    by (simp add: never_fails_def)
  have "map_size OFF_MAP_INITIALIZER < map_limit"
    using lim by (simp add: OFF_MAP_INITIALIZER_def)
  from off_map_lookup_succeeds [OF map_sorted_initial _ this ok, of hdr_avail_off dbf]
  obtain om d1 where lk: "off_map_lookup env OFF_MAP_INITIALIZER hdr_avail_off dbf = (GDBM_NO_ERROR, om, d1)"
    and h1: "same_handle dbf d1"
    by (auto simp: map_cells_def OFF_MAP_INITIALIZER_def)
  from off_map_lookup_new [OF map_sorted_initial lk]
  have om: "map_sorted om" "set (map_cells om) = {hdr_avail_off}" "map_size om = 1"
    by (simp_all add: map_cells_def OFF_MAP_INITIALIZER_def)
  let ?sz = "traverse_size lay avail"
  obtain r d2 where ml: "sys env (Sys_malloc (nat ?sz)) d1 = (r, d2)"
    by (cases "sys env (Sys_malloc (nat ?sz)) d1") auto
  from ml ok [of d1] have r: "\<not> failed r"
    by (auto simp: sys_def Let_def)
  from ml same_handle_sys [of d1 env "Sys_malloc (nat ?sz)"] have "same_handle d1 d2"
    by simp
  with h1 have h: "same_handle dbf d2" by (rule same_handle_trans)
  have unf: "gdbm_avail_traverse env file lay hdr_avail_off dbf avail avail_size cb
          = traverse_loop env file lay cb ?sz om ?n d2"
    using nr cb by (simp add: gdbm_avail_traverse_def av lk Let_def avn avs traverse_size_def [symmetric] ml r
                      del: One_nat_def)
  have p1: "map_size om + k < map_limit" using lim om by simp
  have p2: "distinct (chain file ?n k)" using di by simp
  have p3: "\<forall>m\<in>set (chain file ?n k). m \<noteq> 0 \<and> m \<notin> set (map_cells om)
         \<and> valid_block lay (header d2) (read_write d2 \<noteq> 0) ?sz (file m)"
    using di vb om by (auto simp: same_handle_valid [OF h])
  have p4: "chain_end file ?n k = 0
            \<or> chain_end file ?n k \<in> set (map_cells om) \<union> set (chain file ?n k)"
    using en om by auto
  from traverse_loop_chain [OF nf cb om(1) p1 p2 p3 p4] obtain dbf' where
    res: "traverse_loop env file lay cb ?sz om ?n d2
            = Some (if chain_end file ?n k = 0 then 0 else - 1, dbf')"
    and st: "if chain_end file ?n k = 0 then same_handle d2 dbf'
             else last_error dbf' = GDBM_BAD_AVAIL \<and> g_errno dbf' = GDBM_BAD_AVAIL
                  \<and> need_recovery dbf'"
    by blast
  from st h have "if chain_end file ?n k = 0 then same_handle dbf dbf'
             else last_error dbf' = GDBM_BAD_AVAIL \<and> g_errno dbf' = GDBM_BAD_AVAIL
                  \<and> need_recovery dbf'"
    by (auto intro: same_handle_trans split: if_splits)
  with unf res show ?thesis by auto
qed

lemma off_map_lookup_sorted:
  assumes ms: "map_sorted omap"
  shows "case off_map_lookup env omap n dbf of
           (rc, omap', dbf') \<Rightarrow>
             (rc = GDBM_CANNOT_REPLACE) = (n \<in> set (map_cells omap))
             \<and> (rc = GDBM_NO_ERROR \<longrightarrow>
                  map_sorted omap' \<and> set (map_cells omap') = insert n (set (map_cells omap)))"
proof (cases "n \<in> set (map_cells omap)")
  case True
  from off_map_lookup_found [OF ms True] show ?thesis
    using True by simp
next
  case False
  obtain rc om d where lk: "off_map_lookup env omap n dbf = (rc, om, d)"
    by (cases "off_map_lookup env omap n dbf") auto
  from ms have s: "sorted (map_cells omap)" and l: "length (map_cells omap) = map_size omap"
    by (simp_all add: map_sorted_def map_inv_cells)
  have "(if map_size omap \<noteq> 0
         then off_map_search (map_cells omap) n 0 (int (map_size omap) - 1)
         else Some (- 1)) \<noteq> None"
    using search_found_iff [OF s, of n] False unfolding l by simp
  with lk have "rc \<noteq> GDBM_CANNOT_REPLACE"
    unfolding off_map_lookup_def by (auto simp: Let_def split_def split: if_splits)
  moreover have "rc = GDBM_NO_ERROR \<Longrightarrow>
      map_sorted om \<and> set (map_cells om) = insert n (set (map_cells omap))"
    using off_map_lookup_new [OF ms, of env n dbf om d] lk by simp
  ultimately show ?thesis
    using False lk by simp
qed

text \<open>
  Claim C7. \<^verbatim>\<open>gdbm_avail_traverse\<close> returns, whatever the file holds, whatever the
  outcomes of the calls it makes and whatever the (returning) callback answers: the loop
  cannot run forever on a stack whose \<^verbatim>\<open>next_block\<close> pointers form a cycle. The visited
  offsets are kept in a sorted array without repetitions: on such an array
  \<^verbatim>\<open>off_map_lookup\<close> answers \<^verbatim>\<open>GDBM_CANNOT_REPLACE\<close> exactly for an offset that the
  array holds, and when it answers \<^verbatim>\<open>GDBM_NO_ERROR\<close> the offset has been added and the
  array is sorted again. For a handle that does not need recovery, when no call fails,
  the callback never stops the traversal and the block of the header validates, consider
  the first \<open>k\<close> blocks of the chain (fewer than the bound that \<^verbatim>\<open>off_map_expand\<close> puts on
  the array), none at offset zero, all validating and at offsets different from each
  other and from that of the header's block: if the last of them has \<^verbatim>\<open>next_block\<close> zero
  the traversal returns 0 and leaves the error state of the handle as it was; if the last
  of them names an offset that was already visited the traversal returns -1, the error
  code is \<^verbatim>\<open>GDBM_BAD_AVAIL\<close> and the handle needs recovery.
\<close>

theorem avail_traverse_terminates:
  "(\<exists>r. gdbm_avail_traverse env file lay hdr_avail_off dbf avail avail_size cb = Some r)
   \<and> (map_sorted omap \<longrightarrow>
        (case off_map_lookup env omap n dbf of
           (rc, omap', dbf') \<Rightarrow>
             (rc = GDBM_CANNOT_REPLACE) = (n \<in> set (map_cells omap))
             \<and> (rc = GDBM_NO_ERROR \<longrightarrow>
                  map_sorted omap' \<and> set (map_cells omap') = insert n (set (map_cells omap)))))
   \<and> (never_fails env \<and> (\<forall>blk m. \<not> cb_stop cb blk m) \<and> \<not> need_recovery dbf
        \<and> valid_block lay (header dbf) (read_write dbf \<noteq> 0) avail_size avail
        \<and> Suc k < map_limit
        \<and> distinct (hdr_avail_off # chain file (ab_next_block avail) k)
        \<and> (\<forall>m\<in>set (chain file (ab_next_block avail) k). m \<noteq> 0
               \<and> valid_block lay (header dbf) (read_write dbf \<noteq> 0) (traverse_size lay avail) (file m))
        \<and> (chain_end file (ab_next_block avail) k = 0
             \<or> chain_end file (ab_next_block avail) k
                  \<in> set (hdr_avail_off # chain file (ab_next_block avail) k))
      \<longrightarrow>
        (\<exists>dbf'. gdbm_avail_traverse env file lay hdr_avail_off dbf avail avail_size cb
               = Some (if chain_end file (ab_next_block avail) k = 0 then 0 else - 1, dbf')
          \<and> (if chain_end file (ab_next_block avail) k = 0 then same_handle dbf dbf'
              else last_error dbf' = GDBM_BAD_AVAIL \<and> g_errno dbf' = GDBM_BAD_AVAIL
                   \<and> need_recovery dbf')))"
proof (intro conjI impI)
  show "\<exists>r. gdbm_avail_traverse env file lay hdr_avail_off dbf avail avail_size cb = Some r"
    by (rule gdbm_avail_traverse_returns)
next
  assume "map_sorted omap"
  then show "case off_map_lookup env omap n dbf of
           (rc, omap', dbf') \<Rightarrow>
             (rc = GDBM_CANNOT_REPLACE) = (n \<in> set (map_cells omap))
             \<and> (rc = GDBM_NO_ERROR \<longrightarrow>
                  map_sorted omap' \<and> set (map_cells omap') = insert n (set (map_cells omap)))"
    by (rule off_map_lookup_sorted)
next
  assume a: "never_fails env \<and> (\<forall>blk m. \<not> cb_stop cb blk m) \<and> \<not> need_recovery dbf
        \<and> valid_block lay (header dbf) (read_write dbf \<noteq> 0) avail_size avail
        \<and> Suc k < map_limit
        \<and> distinct (hdr_avail_off # chain file (ab_next_block avail) k)
        \<and> (\<forall>m\<in>set (chain file (ab_next_block avail) k). m \<noteq> 0
               \<and> valid_block lay (header dbf) (read_write dbf \<noteq> 0) (traverse_size lay avail) (file m))
        \<and> (chain_end file (ab_next_block avail) k = 0
             \<or> chain_end file (ab_next_block avail) k
                  \<in> set (hdr_avail_off # chain file (ab_next_block avail) k))"
  show "\<exists>dbf'. gdbm_avail_traverse env file lay hdr_avail_off dbf avail avail_size cb
               = Some (if chain_end file (ab_next_block avail) k = 0 then 0 else - 1, dbf')
          \<and> (if chain_end file (ab_next_block avail) k = 0 then same_handle dbf dbf'
              else last_error dbf' = GDBM_BAD_AVAIL \<and> g_errno dbf' = GDBM_BAD_AVAIL
                   \<and> need_recovery dbf')"
    by (rule gdbm_avail_traverse_chain) (use a in blast)+
qed

text \<open>
  Two files: in the first the block at 1024 names the block at 2048, which names the
  block at 1024 again; in the second the block at 2048 ends the chain.
\<close>

definition blk_to :: "int \<Rightarrow> avail_block" where
  "blk_to nxt = \<lparr> ab_size = 4, ab_count = 0, ab_next_block = nxt, av_table = [] \<rparr>"

definition file_loop :: "int \<Rightarrow> avail_block" where
  "file_loop n = (if n = 1024 then blk_to 2048 else blk_to 1024)"

definition file_line :: "int \<Rightarrow> avail_block" where
  "file_line n = (if n = 1024 then blk_to 2048 else blk_to 0)"

lemma valid_blk_to:
  "32 < sz \<Longrightarrow> valid_block lay_lp64 (header dbf_open) (read_write dbf_open \<noteq> 0) sz (blk_to nxt)"
  by (simp add: valid_block_def gdbm_avail_block_validate_def gdbm_avail_table_valid_p_def
      blk_to_def lay_lp64_def dbf_open_def)

lemma traverse_size_blk_to: "traverse_size lay_lp64 (blk_to nxt) = 64"
  by (simp add: traverse_size_def blk_to_def lay_lp64_def)

lemma map_limit_gt: "Suc 2 < map_limit"
  by (simp add: map_limit_def SIZE_T_MAX_def sizeof_off_t_def)

lemma chain_file_loop:
  "chain file_loop (ab_next_block (blk_to 1024)) 2 = [1024, 2048]"
  "chain_end file_loop (ab_next_block (blk_to 1024)) 2 = 1024"
  by (simp_all add: eval_nat_numeral file_loop_def blk_to_def)

lemma chain_file_line:
  "chain file_line (ab_next_block (blk_to 1024)) 2 = [1024, 2048]"
  "chain_end file_line (ab_next_block (blk_to 1024)) 2 = 0"
  by (simp_all add: eval_nat_numeral file_line_def blk_to_def)

theorem avail_traverse_terminates_witness:
  "(\<exists>dbf'. gdbm_avail_traverse env_ok file_loop lay_lp64 16 dbf_open (blk_to 1024) 480 None
             = Some (- 1, dbf')
          \<and> last_error dbf' = GDBM_BAD_AVAIL \<and> need_recovery dbf')
   \<and> (\<exists>dbf'. gdbm_avail_traverse env_ok file_line lay_lp64 16 dbf_open (blk_to 1024) 480 None
             = Some (0, dbf')
          \<and> last_error dbf' = GDBM_NO_ERROR \<and> \<not> need_recovery dbf')
   \<and> fst (off_map_lookup env_ok OFF_MAP_INITIALIZER 16 dbf_open) \<noteq> GDBM_CANNOT_REPLACE"
proof -
  have nf: "never_fails env_ok"
    by (rule never_fails_env_ok)
  have cb: "\<forall>blk m. \<not> cb_stop None blk m"
    by (simp add: cb_stop_def)
  have nr: "\<not> need_recovery dbf_open" "last_error dbf_open = GDBM_NO_ERROR"
    by (simp_all add: dbf_open_def)
  have va: "valid_block lay_lp64 (header dbf_open) (read_write dbf_open \<noteq> 0) 480 (blk_to 1024)"
    by (rule valid_blk_to) simp
  have vb: "valid_block lay_lp64 (header dbf_open) (read_write dbf_open \<noteq> 0) 64 (blk_to nxt)" for nxt
    by (rule valid_blk_to) simp
  note t = avail_traverse_terminates [of env_ok _ lay_lp64 16 dbf_open "blk_to 1024" 480 None
      OFF_MAP_INITIALIZER 16 2]
  have "\<exists>dbf'. gdbm_avail_traverse env_ok file_loop lay_lp64 16 dbf_open (blk_to 1024) 480 None
             = Some (- 1, dbf')
          \<and> last_error dbf' = GDBM_BAD_AVAIL \<and> need_recovery dbf'"
    using t [of file_loop, THEN conjunct2, THEN conjunct2] nf cb nr va vb map_limit_gt
    by (auto simp: chain_file_loop traverse_size_blk_to file_loop_def)
  moreover
  have "\<exists>dbf'. gdbm_avail_traverse env_ok file_line lay_lp64 16 dbf_open (blk_to 1024) 480 None
             = Some (0, dbf')
          \<and> last_error dbf' = GDBM_NO_ERROR \<and> \<not> need_recovery dbf'"
    using t [of file_line, THEN conjunct2, THEN conjunct2] nf cb nr va vb map_limit_gt
    by (auto simp: chain_file_line traverse_size_blk_to file_line_def same_handle_def)
  moreover
  have "fst (off_map_lookup env_ok OFF_MAP_INITIALIZER 16 dbf_open) \<noteq> GDBM_CANNOT_REPLACE"
    using t [of file_line, THEN conjunct2, THEN conjunct1] map_sorted_initial
    by (auto simp: split_def map_cells_def OFF_MAP_INITIALIZER_def)
  ultimately show ?thesis by blast
qed

section \<open>The bucket cache (bucket.c)\<close>

text \<open>
  The list \<open>cache\<close> of the handle is the list of cache elements from \<^verbatim>\<open>cache_mru\<close> to
  \<^verbatim>\<open>cache_lru\<close>. An element is known by the file address of its bucket: the hash table
  \<^verbatim>\<open>dbf->cache\<close> holds the elements of the list, each under its address, so that
  \<^verbatim>\<open>cache_tab_lookup_slot\<close> finds the element of the list with the address \<open>adr\<close>, or
  an empty slot. A pointer to an element is its address, \<^verbatim>\<open>NULL\<close> is \<open>None\<close>.
\<close>

definition cache_tab_lookup_slot :: "gdbm_file \<Rightarrow> int \<Rightarrow> cache_elem option" where
  "cache_tab_lookup_slot dbf adr = find (\<lambda>e. ca_adr e = adr) (cache dbf)"

text \<open>
  \<^verbatim>\<open>lru_link_elem\<close> links \<open>elem\<close> at the head when \<open>ref\<close> is \<^verbatim>\<open>NULL\<close> and after the
  element \<open>ref\<close> otherwise; \<^verbatim>\<open>lru_unlink_elem\<close> takes the element out of the list.
\<close>

fun link_after :: "cache_elem \<Rightarrow> int \<Rightarrow> cache_elem list \<Rightarrow> cache_elem list" where
  "link_after elem r [] = []"
| "link_after elem r (x # xs) =
     (if ca_adr x = r then x # elem # xs else x # link_after elem r xs)"

definition lru_link_elem :: "gdbm_file \<Rightarrow> cache_elem \<Rightarrow> int option \<Rightarrow> gdbm_file" where
  "lru_link_elem dbf elem ref =
     (case ref of
        None \<Rightarrow> dbf \<lparr> cache := elem # cache dbf \<rparr>
      | Some r \<Rightarrow> dbf \<lparr> cache := link_after elem r (cache dbf) \<rparr>)"

fun unlink :: "int \<Rightarrow> cache_elem list \<Rightarrow> cache_elem list" where
  "unlink adr [] = []"
| "unlink adr (x # xs) = (if ca_adr x = adr then xs else x # unlink adr xs)"

definition lru_unlink_elem :: "gdbm_file \<Rightarrow> int \<Rightarrow> gdbm_file" where
  "lru_unlink_elem dbf adr = dbf \<lparr> cache := unlink adr (cache dbf) \<rparr>"

text \<open>
  \<^verbatim>\<open>cache_elem_new\<close> takes a spare element from \<^verbatim>\<open>cache_avail\<close> or allocates one;
  \<open>None\<close> is the \<^verbatim>\<open>NULL\<close> it returns when \<^verbatim>\<open>calloc\<close> fails.
\<close>

definition cache_elem_new :: "io_env \<Rightarrow> gdbm_file \<Rightarrow> int \<Rightarrow> cache_elem option \<times> gdbm_file" where
  "cache_elem_new env dbf adr =
     (if cache_avail dbf \<noteq> 0
      then (Some \<lparr> ca_adr = adr, ca_changed = False, ca_hits = 0 \<rparr>,
            dbf \<lparr> cache_avail := cache_avail dbf - 1 \<rparr>)
      else
        sys_or env Sys_calloc
          (\<lambda>dbf. (None, dbf))
          (\<lambda>dbf. (Some \<lparr> ca_adr = adr, ca_changed = False, ca_hits = 0 \<rparr>, dbf))
          dbf)"

definition cache_elem_free :: "gdbm_file \<Rightarrow> int \<Rightarrow> gdbm_file" where
  "cache_elem_free dbf adr =
     (let dbf = lru_unlink_elem dbf adr
      in dbf \<lparr> cache_avail := cache_avail dbf + 1, cache_num := cache_num dbf - 1 \<rparr>)"

text \<open>
  \<^verbatim>\<open>cache_lru_free\<close>: the return value and the handle; \<open>None\<close> is the end of the
  process, in \<^verbatim>\<open>_gdbm_fatal\<close> or at the \<^verbatim>\<open>NULL\<close> that \<^verbatim>\<open>cache_lru\<close> is in an empty list.
  The element that was written leaves the list.
\<close>

definition cache_lru_free :: "io_env \<Rightarrow> gdbm_file \<Rightarrow> (int \<times> gdbm_file) option" where
  "cache_lru_free env dbf =
     (if cache dbf = [] then None
      else
        let lst = last (cache dbf) in
        if ca_changed lst then
          (case gdbm_write_bucket env dbf lst of
             None \<Rightarrow> None
           | Some (rc, lst, dbf) \<Rightarrow>
               if rc \<noteq> 0 then Some (-1, dbf)
               else Some (0, cache_elem_free dbf (ca_adr lst)))
        else Some (0, cache_elem_free dbf (ca_adr lst)))"

text \<open>
  The loop of \<^verbatim>\<open>cache_tab_resize\<close> over the elements from \<^verbatim>\<open>cache_lru\<close> backwards,
  with the addresses that the new table holds so far; \<open>None\<close> is \<^verbatim>\<open>abort ()\<close>.
\<close>

fun rehash :: "nat \<Rightarrow> cache_elem list \<Rightarrow> int list \<Rightarrow> gdbm_file \<Rightarrow> gdbm_file option" where
  "rehash sz [] tab dbf = Some dbf"
| "rehash sz (elem # elems) tab dbf =
     (if sz < cache_num dbf then rehash sz elems tab (cache_elem_free dbf (ca_adr elem))
      else if ca_adr elem \<in> set tab then None
      else rehash sz elems (ca_adr elem # tab) dbf)"

definition sizeof_ptr :: nat where "sizeof_ptr = 8"

text \<open>
  \<^verbatim>\<open>cache_tab_resize\<close>: the return value and the handle. The table of an open handle is
  allocated, so the resize happens when the size differs.
\<close>

definition cache_tab_resize :: "io_env \<Rightarrow> gdbm_file \<Rightarrow> nat \<Rightarrow> (int \<times> gdbm_file) option" where
  "cache_tab_resize env dbf bits =
     (let sz = 2 ^ bits in
      if sz \<noteq> cache_size dbf then
        (case gdbm_cache_flush env dbf of
           None \<Rightarrow> None
         | Some (rc, dbf) \<Rightarrow>
             if rc \<noteq> 0 then Some (-1, dbf)
             else
               sys_or env (Sys_realloc (sz * sizeof_ptr))
                 (\<lambda>dbf. Some (-1, GDBM_SET_ERRNO dbf GDBM_MALLOC_ERROR False))
                 (\<lambda>dbf. map_option (Pair 0)
                           (rehash sz (rev (cache dbf)) []
                              (dbf \<lparr> cache_size := sz, cache_bits := bits \<rparr>)))
                 dbf)
      else Some (0, dbf))"

datatype cache_result = cache_found | cache_new | cache_failure

text \<open>
  The part of \<^verbatim>\<open>cache_lookup\<close> that makes room for a new element when the cache is full:
  the value of \<^verbatim>\<open>rc\<close> and the handle.
\<close>

definition cache_free_or_fail :: "io_env \<Rightarrow> gdbm_file \<Rightarrow> (cache_result \<times> gdbm_file) option" where
  "cache_free_or_fail env dbf =
     (case cache_lru_free env dbf of
        None \<Rightarrow> None
      | Some (rc, dbf) \<Rightarrow> Some (if rc \<noteq> 0 then cache_failure else cache_new, dbf))"

definition cache_make_room :: "io_env \<Rightarrow> gdbm_file \<Rightarrow> (cache_result \<times> gdbm_file) option" where
  "cache_make_room env dbf =
     (if cache_num dbf = cache_size dbf then
        (if cache_auto dbf \<and> int (cache_bits dbf) < dir_bits (header dbf) then
           (case cache_tab_resize env dbf (cache_bits dbf + 1) of
              None \<Rightarrow> None
            | Some (rc, dbf) \<Rightarrow>
                if rc = 0 then Some (cache_new, dbf) else cache_free_or_fail env dbf)
         else cache_free_or_fail env dbf)
      else Some (cache_new, dbf))"

text \<open>
  \<^verbatim>\<open>cache_lookup (dbf, adr, ref, ret_elem)\<close>: the return value and the handle; the
  element returned in \<^verbatim>\<open>ret_elem\<close> is the one with the address \<open>adr\<close>. The first step
  finds or makes the element: it has no element at the early
  \<^verbatim>\<open>return cache_failure\<close>. The result of \<^verbatim>\<open>_gdbm_cache_flush\<close> is not looked at.
\<close>

definition cache_obtain ::
  "io_env \<Rightarrow> gdbm_file \<Rightarrow> int \<Rightarrow> ((cache_result \<times> cache_elem) option \<times> gdbm_file) option" where
  "cache_obtain env dbf adr =
     (case cache_tab_lookup_slot dbf adr of
        Some elem \<Rightarrow>
          Some (Some (cache_found, elem \<lparr> ca_hits := ca_hits elem + 1 \<rparr>), lru_unlink_elem dbf adr)
      | None \<Rightarrow>
          (case cache_elem_new env dbf adr of
             (None, dbf) \<Rightarrow> Some (None, dbf)
           | (Some elem, dbf) \<Rightarrow>
               (case cache_make_room env dbf of
                  None \<Rightarrow> None
                | Some (rc, dbf) \<Rightarrow>
                    Some (Some (rc, elem),
                          if rc = cache_new then dbf \<lparr> cache_num := cache_num dbf + 1 \<rparr> else dbf))))"

definition cache_lookup ::
  "io_env \<Rightarrow> gdbm_file \<Rightarrow> int \<Rightarrow> int option \<Rightarrow> (cache_result \<times> gdbm_file) option" where
  "cache_lookup env dbf adr ref =
     (case cache_obtain env dbf adr of
        None \<Rightarrow> None
      | Some (None, dbf) \<Rightarrow> Some (cache_failure, dbf)
      | Some (Some (rc, elem), dbf) \<Rightarrow>
          (case (if ref = None \<and> \<not> ca_changed elem
                 then map_option snd (gdbm_cache_flush env dbf) else Some dbf) of
             None \<Rightarrow> None
           | Some dbf \<Rightarrow> Some (rc, lru_link_elem dbf elem ref)))"

text \<open>
  The cache operations of one turn of the loop of \<^verbatim>\<open>_gdbm_split_bucket\<close>. The
  statements between the second lookup and the setting of the changed flags work on the
  directory and on the bucket images; they are the parameter \<open>body\<close>, with the return
  value \<open>None\<close> where they end the process. \<^verbatim>\<open>_gdbm_alloc\<close> is not among the sources;
  \<open>adr_0\<close> and \<open>adr_1\<close> are the addresses it returns. \<open>swap\<close> is the test
  \<^verbatim>\<open>dbf->dir[dbf->bucket_dir] != adr_0\<close>. A turn ends the process where
  \<^verbatim>\<open>cache_mru\<close> is \<^verbatim>\<open>NULL\<close>. The new elements were made by \<^verbatim>\<open>cache_elem_new\<close> and
  marked as changed, which gives the element that is linked at the head.
\<close>

definition cache_mru :: "gdbm_file \<Rightarrow> int option" where
  "cache_mru dbf = (case cache dbf of [] \<Rightarrow> None | elem # _ \<Rightarrow> Some (ca_adr elem))"

definition set_changed :: "int \<Rightarrow> gdbm_file \<Rightarrow> gdbm_file" where
  "set_changed adr dbf =
     dbf \<lparr> cache := map (\<lambda>e. if ca_adr e = adr then e \<lparr> ca_changed := True \<rparr> else e) (cache dbf) \<rparr>"

definition split_bucket_turn ::
  "io_env \<Rightarrow> gdbm_file \<Rightarrow> int \<Rightarrow> int \<Rightarrow> (gdbm_file \<Rightarrow> (int \<times> gdbm_file) option) \<Rightarrow> bool
     \<Rightarrow> (int \<times> gdbm_file) option" where
  "split_bucket_turn env dbf adr_0 adr_1 body swap =
     (case cache_lookup env dbf adr_0 (cache_mru dbf) of
        None \<Rightarrow> None
      | Some (cache_found, dbf) \<Rightarrow> Some (-1, GDBM_SET_ERRNO dbf GDBM_BUCKET_CACHE_CORRUPTED True)
      | Some (cache_failure, dbf) \<Rightarrow> Some (-1, dbf)
      | Some (cache_new, dbf) \<Rightarrow>
          (case cache_lookup env dbf adr_1 (Some adr_0) of
             None \<Rightarrow> None
           | Some (cache_found, dbf) \<Rightarrow> Some (-1, GDBM_SET_ERRNO dbf GDBM_BUCKET_CACHE_CORRUPTED True)
           | Some (cache_failure, dbf) \<Rightarrow> Some (-1, dbf)
           | Some (cache_new, dbf) \<Rightarrow>
               (case body dbf of
                  None \<Rightarrow> None
                | Some (rc, dbf) \<Rightarrow>
                    if rc \<noteq> 0 then Some (-1, dbf)
                    else
                      (let dbf = set_changed adr_0 dbf;
                           dbf = set_changed adr_1 dbf;
                           dbf = dbf \<lparr> directory_changed := True \<rparr>
                       in case cache_mru dbf of
                            None \<Rightarrow> None
                          | Some m \<Rightarrow>
                              (let dbf = cache_elem_free dbf m;
                                   n0 = (if swap then adr_1 else adr_0)
                               in Some (0, lru_link_elem (lru_unlink_elem dbf n0)
                                             \<lparr> ca_adr = n0, ca_changed = True, ca_hits = 0 \<rparr> None))))))"

text \<open>
  The changed elements form a contiguous sequence at the head of the list: no element
  after the first unchanged one is changed.
\<close>

definition dirty_prefix :: "cache_elem list \<Rightarrow> bool" where
  "dirty_prefix elems = list_all (\<lambda>e. \<not> ca_changed e) (dropWhile ca_changed elems)"

subsection \<open>Lookups keep the changed elements at the head\<close>

definition all_clean :: "cache_elem list \<Rightarrow> bool" where
  "all_clean elems = list_all (\<lambda>e. \<not> ca_changed e) elems"

text \<open>
  The invariant of the cache list: the changed elements form a contiguous sequence at
  the head, unless the handle needs recovery.
\<close>

definition cache_inv :: "gdbm_file \<Rightarrow> bool" where
  "cache_inv dbf = (need_recovery dbf \<or> dirty_prefix (cache dbf))"

lemma all_clean_simps [simp]:
  "all_clean [] = True"
  "all_clean (e # es) = (\<not> ca_changed e \<and> all_clean es)"
  by (simp_all add: all_clean_def)

lemma dirty_prefix_simps [simp]:
  "dirty_prefix [] = True"
  "dirty_prefix (e # es) = (if ca_changed e then dirty_prefix es else all_clean es)"
  by (simp_all add: dirty_prefix_def all_clean_def)

lemma all_clean_dirty_prefix: "all_clean es \<Longrightarrow> dirty_prefix es"
  by (induction es) simp_all

lemma all_clean_unlink: "all_clean es \<Longrightarrow> all_clean (unlink adr es)"
  by (induction es) simp_all

lemma dirty_prefix_unlink: "dirty_prefix es \<Longrightarrow> dirty_prefix (unlink adr es)"
  by (induction es) (auto simp: all_clean_unlink all_clean_dirty_prefix)

lemma all_clean_flushed: "dirty_prefix es \<Longrightarrow> all_clean (flushed es)"
  by (induction es) (auto simp: flushed_def)

lemma sys_cache [simp]:
  "cache (snd (sys env c dbf)) = cache dbf"
  "need_recovery (snd (sys env c dbf)) = need_recovery dbf"
  by (simp_all add: sys_def Let_def)

lemma set_errno_cache [simp]:
  "cache (GDBM_SET_ERRNO dbf ec fatal) = cache dbf"
  "need_recovery (GDBM_SET_ERRNO dbf ec fatal) = (need_recovery dbf \<or> fatal)"
  by (simp_all add: GDBM_SET_ERRNO_def)

lemma full_write_cache:
  assumes "gdbm_full_write env buf sz dbf = (rc, dbf')"
  shows "cache dbf' = cache dbf \<and> (need_recovery dbf \<longrightarrow> need_recovery dbf')
         \<and> (rc \<longrightarrow> need_recovery dbf')"
proof (cases "failed (fst (sys env (Sys_full_write buf sz) dbf))")
  case True
  with assms have "dbf' = GDBM_SET_ERRNO (snd (sys env (Sys_full_write buf sz) dbf)) GDBM_FILE_WRITE_ERROR True"
    and "rc" by (auto simp: gdbm_full_write_def sys_or_def split_def)
  then show ?thesis by simp
next
  case False
  with assms have "dbf' = snd (sys env (Sys_full_write buf sz) dbf)" and "\<not> rc"
    by (auto simp: gdbm_full_write_def sys_or_def split_def)
  then show ?thesis by simp
qed

lemma write_bucket_cache:
  assumes "gdbm_write_bucket env dbf elem = Some (rc, elem', dbf')"
  shows "cache dbf' = cache dbf \<and> (need_recovery dbf \<longrightarrow> need_recovery dbf')
         \<and> (rc \<noteq> 0 \<longrightarrow> need_recovery dbf')
         \<and> (rc = 0 \<longrightarrow> elem' = elem \<lparr> ca_changed := False \<rparr>)"
proof (cases "failed (fst (sys env (Sys_lseek (ca_adr elem)) dbf))")
  case True
  with assms have "dbf' = GDBM_SET_ERRNO (snd (sys env (Sys_lseek (ca_adr elem)) dbf)) GDBM_FILE_SEEK_ERROR True"
    and "rc = - 1"
    by (auto simp: gdbm_write_bucket_def sys_or_def split_def gdbm_fatal_def split: if_splits)
  then show ?thesis by simp
next
  case False
  let ?d = "snd (sys env (Sys_lseek (ca_adr elem)) dbf)"
  obtain w d1 where fw: "gdbm_full_write env (Buf_bucket (ca_adr elem)) (bucket_size (header ?d)) ?d = (w, d1)"
    by (cases "gdbm_full_write env (Buf_bucket (ca_adr elem)) (bucket_size (header ?d)) ?d") auto
  from full_write_cache [OF fw]
  have c: "cache d1 = cache dbf" "need_recovery dbf \<longrightarrow> need_recovery d1" "w \<longrightarrow> need_recovery d1"
    by simp_all
  from assms False fw have "dbf' = d1 \<and> (if w then rc = - 1 else rc = 0 \<and> elem' = elem \<lparr> ca_changed := False \<rparr>)"
    by (auto simp: gdbm_write_bucket_def sys_or_def split_def gdbm_fatal_def split: if_splits)
  with c show ?thesis by (auto split: if_splits)
qed

lemma cache_flush_loop_cache:
  "cache_flush_loop env elems dbf = Some (rc, elems', dbf') \<Longrightarrow>
     cache dbf' = cache dbf \<and> (need_recovery dbf \<longrightarrow> need_recovery dbf')
     \<and> (rc \<noteq> 0 \<longrightarrow> need_recovery dbf') \<and> (rc = 0 \<longrightarrow> elems' = flushed elems)"
proof (induction elems arbitrary: rc elems' dbf dbf')
  case Nil
  then show ?case by (simp add: flushed_def)
next
  case (Cons elem rest)
  show ?case
  proof (cases "ca_changed elem")
    case False
    with Cons.prems show ?thesis by (auto simp: flushed_def)
  next
    case True
    with Cons.prems obtain r e d where wb: "gdbm_write_bucket env dbf elem = Some (r, e, d)"
      by (cases "gdbm_write_bucket env dbf elem") auto
    from write_bucket_cache [OF wb]
    have w: "cache d = cache dbf" "need_recovery dbf \<longrightarrow> need_recovery d"
      "r \<noteq> 0 \<longrightarrow> need_recovery d" "r = 0 \<longrightarrow> e = elem \<lparr> ca_changed := False \<rparr>"
      by simp_all
    show ?thesis
    proof (cases "r = 0")
      case False
      with Cons.prems True wb have "rc = - 1" "dbf' = d" by simp_all
      with w False show ?thesis by simp
    next
      case r0: True
      with Cons.prems True wb obtain rs where
        fl: "cache_flush_loop env rest d = Some (rc, rs, dbf')" and el: "elems' = e # rs"
        by (cases "cache_flush_loop env rest d") auto
      from Cons.IH [OF fl] w r0 el True show ?thesis
        by (auto simp: flushed_def)
    qed
  qed
qed

lemma cache_flush_inv:
  assumes "gdbm_cache_flush env dbf = Some (rc, dbf')" and "cache_inv dbf"
  shows "need_recovery dbf' \<or> (rc = 0 \<and> all_clean (cache dbf'))"
proof -
  from assms(1) obtain es d where fl: "cache_flush_loop env (cache dbf) dbf = Some (rc, es, d)"
    and d: "dbf' = d \<lparr> cache := es \<rparr>"
    by (cases "cache_flush_loop env (cache dbf) dbf") (auto simp: gdbm_cache_flush_def)
  from cache_flush_loop_cache [OF fl] d assms(2) show ?thesis
    by (cases "rc = 0") (auto simp: cache_inv_def all_clean_flushed)
qed

lemma cache_flush_inv':
  assumes "gdbm_cache_flush env dbf = Some (rc, dbf')" and "cache_inv dbf"
  shows "cache_inv dbf'" and "rc \<noteq> 0 \<Longrightarrow> need_recovery dbf'"
  using cache_flush_inv [OF assms] by (auto simp: cache_inv_def all_clean_dirty_prefix)

lemma cache_elem_free_inv: "cache_inv dbf \<Longrightarrow> cache_inv (cache_elem_free dbf adr)"
  by (auto simp: cache_inv_def cache_elem_free_def lru_unlink_elem_def Let_def dirty_prefix_unlink)

lemma cache_lru_free_inv:
  assumes "cache_lru_free env dbf = Some (rc, dbf')" and "cache_inv dbf"
  shows "cache_inv dbf'"
proof (cases "cache dbf \<noteq> [] \<and> ca_changed (last (cache dbf))")
  case False
  with assms(1) have "dbf' = cache_elem_free dbf (ca_adr (last (cache dbf)))"
    by (auto simp: cache_lru_free_def Let_def split: if_splits)
  with assms(2) show ?thesis by (simp add: cache_elem_free_inv)
next
  case True
  with assms(1) obtain r e d where wb: "gdbm_write_bucket env dbf (last (cache dbf)) = Some (r, e, d)"
    by (cases "gdbm_write_bucket env dbf (last (cache dbf))") (auto simp: cache_lru_free_def Let_def)
  from write_bucket_cache [OF wb] assms(2) have d: "cache_inv d" "r \<noteq> 0 \<longrightarrow> need_recovery d"
    by (auto simp: cache_inv_def)
  from assms(1) True wb have "dbf' = (if r \<noteq> 0 then d else cache_elem_free d (ca_adr e))"
    by (auto simp: cache_lru_free_def Let_def split: if_splits)
  with d show ?thesis by (simp add: cache_elem_free_inv)
qed

lemma rehash_inv:
  "rehash sz elems tab dbf = Some dbf' \<Longrightarrow> cache_inv dbf \<Longrightarrow> cache_inv dbf'"
  by (induction sz elems tab dbf rule: rehash.induct)
     (auto simp: cache_elem_free_inv split: if_splits)

lemma cache_inv_upd [simp]:
  "cache_inv (dbf \<lparr> cache_size := s, cache_bits := b \<rparr>) = cache_inv dbf"
  "cache_inv (dbf \<lparr> cache_num := n \<rparr>) = cache_inv dbf"
  "cache_inv (dbf \<lparr> cache_avail := a \<rparr>) = cache_inv dbf"
  "cache_inv (snd (sys env c dbf)) = cache_inv dbf"
  by (simp_all add: cache_inv_def)

lemma cache_inv_set_errno: "cache_inv dbf \<Longrightarrow> cache_inv (GDBM_SET_ERRNO dbf ec fatal)"
  by (auto simp: cache_inv_def)

lemma cache_tab_resize_inv:
  assumes "cache_tab_resize env dbf bits = Some (rc, dbf')" and "cache_inv dbf"
  shows "cache_inv dbf'"
proof (cases "2 ^ bits \<noteq> cache_size dbf")
  case False
  with assms show ?thesis by (simp add: cache_tab_resize_def)
next
  case True
  with assms(1) obtain r d where fl: "gdbm_cache_flush env dbf = Some (r, d)"
    by (cases "gdbm_cache_flush env dbf") (auto simp: cache_tab_resize_def Let_def)
  from cache_flush_inv' [OF fl assms(2)] have d: "cache_inv d" by simp
  show ?thesis
  proof (cases "r \<noteq> 0")
    case True
    with assms(1) \<open>2 ^ bits \<noteq> cache_size dbf\<close> fl have "dbf' = d"
      by (simp add: cache_tab_resize_def Let_def)
    with d show ?thesis by simp
  next
    case False
    let ?d = "snd (sys env (Sys_realloc (2 ^ bits * sizeof_ptr)) d)"
    show ?thesis
    proof (cases "failed (fst (sys env (Sys_realloc (2 ^ bits * sizeof_ptr)) d))")
      case True
      with assms(1) \<open>2 ^ bits \<noteq> cache_size dbf\<close> fl False
      have "dbf' = GDBM_SET_ERRNO ?d GDBM_MALLOC_ERROR False"
        by (simp add: cache_tab_resize_def Let_def sys_or_def split_def)
      with d show ?thesis by (simp add: cache_inv_set_errno)
    next
      case nf: False
      with assms(1) \<open>2 ^ bits \<noteq> cache_size dbf\<close> fl False
      have "rehash (2 ^ bits) (rev (cache ?d)) [] (?d \<lparr> cache_size := 2 ^ bits, cache_bits := bits \<rparr>)
              = Some dbf'"
        by (auto simp: cache_tab_resize_def Let_def sys_or_def split_def)
      from rehash_inv [OF this] d show ?thesis by simp
    qed
  qed
qed

lemma cache_free_or_fail_inv:
  assumes "cache_free_or_fail env dbf = Some (rc, dbf')" and "cache_inv dbf"
  shows "cache_inv dbf'"
proof -
  from assms(1) obtain r where "cache_lru_free env dbf = Some (r, dbf')"
    by (cases "cache_lru_free env dbf") (auto simp: cache_free_or_fail_def)
  from cache_lru_free_inv [OF this assms(2)] show ?thesis .
qed

lemma cache_make_room_inv:
  assumes mr: "cache_make_room env dbf = Some (rc, dbf')" and inv: "cache_inv dbf"
  shows "cache_inv dbf'"
proof (cases "cache_num dbf = cache_size dbf")
  case False
  with mr inv show ?thesis by (simp add: cache_make_room_def)
next
  case full: True
  show ?thesis
  proof (cases "cache_auto dbf \<and> int (cache_bits dbf) < dir_bits (header dbf)")
    case False
    with mr full have "cache_free_or_fail env dbf = Some (rc, dbf')"
      by (auto simp: cache_make_room_def)
    from cache_free_or_fail_inv [OF this inv] show ?thesis .
  next
    case True
    with mr full obtain r d where rs: "cache_tab_resize env dbf (cache_bits dbf + 1) = Some (r, d)"
      by (cases "cache_tab_resize env dbf (cache_bits dbf + 1)") (auto simp: cache_make_room_def)
    from cache_tab_resize_inv [OF rs inv] have d: "cache_inv d" .
    show ?thesis
    proof (cases "r = 0")
      case True
      with mr full \<open>cache_auto dbf \<and> int (cache_bits dbf) < dir_bits (header dbf)\<close> rs
      have "dbf' = d" by (simp add: cache_make_room_def)
      with d show ?thesis by simp
    next
      case False
      with mr full \<open>cache_auto dbf \<and> int (cache_bits dbf) < dir_bits (header dbf)\<close> rs
      have "cache_free_or_fail env d = Some (rc, dbf')" by (simp add: cache_make_room_def)
      from cache_free_or_fail_inv [OF this d] show ?thesis .
    qed
  qed
qed

lemma cache_elem_new_inv:
  assumes "cache_elem_new env dbf adr = (r, dbf')"
  shows "cache_inv dbf' = cache_inv dbf"
    and "r = Some elem \<Longrightarrow> \<not> ca_changed elem \<and> ca_adr elem = adr"
proof -
  have "(cache_inv dbf' = cache_inv dbf)
        \<and> (r = Some elem \<longrightarrow> \<not> ca_changed elem \<and> ca_adr elem = adr)"
  proof (cases "cache_avail dbf \<noteq> 0")
    case True
    with assms show ?thesis by (auto simp: cache_elem_new_def)
  next
    case False
    with assms show ?thesis
      by (cases "failed (fst (sys env Sys_calloc dbf))")
         (auto simp: cache_elem_new_def sys_or_def split_def)
  qed
  then show "cache_inv dbf' = cache_inv dbf"
    and "r = Some elem \<Longrightarrow> \<not> ca_changed elem \<and> ca_adr elem = adr"
    by simp_all
qed

lemma cache_obtain_inv:
  assumes ob: "cache_obtain env dbf adr = Some (r, dbf')" and inv: "cache_inv dbf"
  shows "cache_inv dbf'"
proof (cases "cache_tab_lookup_slot dbf adr")
  case (Some elem)
  with ob have "dbf' = lru_unlink_elem dbf adr"
    by (simp add: cache_obtain_def)
  with inv show ?thesis
    by (auto simp: cache_inv_def lru_unlink_elem_def dirty_prefix_unlink)
next
  case None
  obtain e d where en: "cache_elem_new env dbf adr = (e, d)"
    by (cases "cache_elem_new env dbf adr") auto
  from cache_elem_new_inv(1) [OF en] inv have d: "cache_inv d" by simp
  show ?thesis
  proof (cases e)
    case None
    with ob \<open>cache_tab_lookup_slot dbf adr = None\<close> en have "dbf' = d"
      by (simp add: cache_obtain_def)
    with d show ?thesis by simp
  next
    case (Some elem)
    with ob \<open>cache_tab_lookup_slot dbf adr = None\<close> en obtain rc d1 where
      mr: "cache_make_room env d = Some (rc, d1)"
      and d': "dbf' = (if rc = cache_new then d1 \<lparr> cache_num := cache_num d1 + 1 \<rparr> else d1)"
      by (cases "cache_make_room env d") (auto simp: cache_obtain_def)
    from cache_make_room_inv [OF mr d] d' show ?thesis by simp
  qed
qed

lemma cache_obtain_elem:
  assumes ob: "cache_obtain env dbf adr = Some (Some (rc, elem), dbf')"
  shows "ca_adr elem = adr"
proof (cases "cache_tab_lookup_slot dbf adr")
  case (Some e)
  then have "ca_adr e = adr"
    by (auto simp: cache_tab_lookup_slot_def find_Some_iff)
  with ob Some show ?thesis by (auto simp: cache_obtain_def)
next
  case None
  obtain e d where en: "cache_elem_new env dbf adr = (e, d)"
    by (cases "cache_elem_new env dbf adr") auto
  with ob None obtain el where e: "e = Some el"
    by (cases e) (auto simp: cache_obtain_def)
  from cache_elem_new_inv(2) [OF en e] have "ca_adr el = adr" by simp
  with ob None en e show ?thesis
    by (cases "cache_make_room env d") (auto simp: cache_obtain_def)
qed

text \<open>
  A lookup that makes its element the current one (\<open>ref\<close> is \<^verbatim>\<open>NULL\<close>) keeps the
  invariant, whatever the outcomes of the calls it makes: when the element is unchanged
  the changed elements are written first, and a write that fails marks the handle as
  needing recovery. When the handle does not need recovery after the lookup and the
  element at the head is unchanged, no element of the cache is changed.
\<close>

lemma cache_lookup_keeps_prefix:
  assumes lk: "cache_lookup env dbf adr None = Some (rc, dbf')" and inv: "cache_inv dbf"
  shows "cache_inv dbf'"
proof -
  from lk obtain r d where ob: "cache_obtain env dbf adr = Some (r, d)"
    by (cases "cache_obtain env dbf adr") (auto simp: cache_lookup_def)
  from cache_obtain_inv [OF ob inv] have d: "cache_inv d" .
  show ?thesis
  proof (cases r)
    case None
    with lk ob have "dbf' = d" by (simp add: cache_lookup_def)
    with d show ?thesis by simp
  next
    case (Some p)
    obtain c elem where p: "p = (c, elem)" by (cases p) auto
    show ?thesis
    proof (cases "ca_changed elem")
      case True
      with lk ob Some p have "dbf' = lru_link_elem d elem None"
        by (simp add: cache_lookup_def)
      with d True show ?thesis
        by (auto simp: cache_inv_def lru_link_elem_def)
    next
      case False
      with lk ob Some p obtain r' d1 where fl: "gdbm_cache_flush env d = Some (r', d1)"
        and d': "dbf' = lru_link_elem d1 elem None"
        by (cases "gdbm_cache_flush env d") (auto simp: cache_lookup_def)
      from cache_flush_inv [OF fl d] d' False show ?thesis
        by (auto simp: cache_inv_def lru_link_elem_def)
    qed
  qed
qed

lemma clean_head_all_clean:
  "cache_inv dbf \<Longrightarrow> \<not> need_recovery dbf \<Longrightarrow> cache dbf = elem # rest \<Longrightarrow> \<not> ca_changed elem \<Longrightarrow>
     all_clean (cache dbf)"
  by (simp add: cache_inv_def)

text \<open>
  A turn of the split that succeeds, in a cache with room for the two new elements: the
  new elements are linked right after the current one, marked as changed, and the
  current one leaves the list, so that the changed elements still form a contiguous
  sequence at the head. The statements of the turn that work on the directory and on the
  bucket images leave the elements after the current one as they are.
\<close>

lemma cache_lookup_after:
  assumes lk: "cache_lookup env dbf adr (Some r) = Some (rc, dbf')"
    and room: "cache_num dbf \<noteq> cache_size dbf"
    and rc: "rc = cache_new"
  shows "find (\<lambda>e. ca_adr e = adr) (cache dbf) = None
         \<and> cache dbf' = link_after \<lparr> ca_adr = adr, ca_changed = False, ca_hits = 0 \<rparr> r (cache dbf)
         \<and> cache_num dbf' = cache_num dbf + 1 \<and> cache_size dbf' = cache_size dbf"
proof (cases "cache_tab_lookup_slot dbf adr")
  case (Some e)
  with lk rc show ?thesis
    by (simp add: cache_lookup_def cache_obtain_def)
next
  case None
  obtain e d where en: "cache_elem_new env dbf adr = (e, d)"
    by (cases "cache_elem_new env dbf adr") auto
  with lk None rc obtain el where e: "e = Some el"
    by (cases e) (auto simp: cache_lookup_def cache_obtain_def)
  have d: "el = \<lparr> ca_adr = adr, ca_changed = False, ca_hits = 0 \<rparr> \<and> cache d = cache dbf
           \<and> cache_num d = cache_num dbf \<and> cache_size d = cache_size dbf"
  proof (cases "cache_avail dbf \<noteq> 0")
    case True
    with en e show ?thesis by (auto simp: cache_elem_new_def)
  next
    case False
    with en e show ?thesis
      by (cases "failed (fst (sys env Sys_calloc dbf))")
         (auto simp: cache_elem_new_def sys_or_def split_def sys_def Let_def)
  qed
  with room have "cache_make_room env d = Some (cache_new, d)"
    by (simp add: cache_make_room_def)
  with lk None en e have "dbf' = lru_link_elem (d \<lparr> cache_num := cache_num d + 1 \<rparr>) el (Some r)"
    by (simp add: cache_lookup_def cache_obtain_def)
  with d None show ?thesis
    by (simp add: lru_link_elem_def cache_tab_lookup_slot_def)
qed

lemma find_None_mark:
  "find (\<lambda>e. ca_adr e = adr) es = None \<Longrightarrow>
     map (\<lambda>e. if ca_adr e = adr then e \<lparr> ca_changed := True \<rparr> else e) es = es"
  by (induction es) (auto split: if_splits)

lemma find_None_link_after:
  "find (\<lambda>e. ca_adr e = adr) es = None \<Longrightarrow> link_after elem adr es = es"
  by (induction es) (auto split: if_splits)

lemma split_turn_keeps_prefix:
  assumes turn: "split_bucket_turn env dbf adr_0 adr_1 body swap = Some (0, dbf')"
    and pre: "dirty_prefix (cache dbf)" and ne: "cache dbf \<noteq> []"
    and room: "cache_num dbf + 2 \<le> cache_size dbf"
    and body: "\<And>d rc d'. body d = Some (rc, d') \<Longrightarrow> cache d' \<noteq> [] \<and> tl (cache d') = tl (cache d)"
  shows "dirty_prefix (cache dbf')
         \<and> map ca_adr (cache dbf') = (if swap then [adr_1, adr_0] else [adr_0, adr_1]) @ map ca_adr (tl (cache dbf))
         \<and> ca_changed (cache dbf' ! 0) \<and> ca_changed (cache dbf' ! 1)"
proof -
  from ne obtain m rest where L: "cache dbf = m # rest" by (cases "cache dbf") auto
  then have mru: "cache_mru dbf = Some (ca_adr m)" by (simp add: cache_mru_def)
  let ?e0 = "\<lparr> ca_adr = adr_0, ca_changed = False, ca_hits = 0 \<rparr>"
  let ?e1 = "\<lparr> ca_adr = adr_1, ca_changed = False, ca_hits = 0 \<rparr>"
  from turn obtain rc1 d1 where l1: "cache_lookup env dbf adr_0 (Some (ca_adr m)) = Some (rc1, d1)"
    by (cases "cache_lookup env dbf adr_0 (Some (ca_adr m))") (auto simp: split_bucket_turn_def mru)
  from turn l1 have rc1: "rc1 = cache_new"
    by (cases rc1) (simp_all add: split_bucket_turn_def mru)
  from room have "cache_num dbf \<noteq> cache_size dbf" by simp
  from cache_lookup_after [OF l1 this rc1] L
  have f0: "find (\<lambda>e. ca_adr e = adr_0) (m # rest) = None"
    and c1: "cache d1 = link_after ?e0 (ca_adr m) (m # rest)"
    and n1: "cache_num d1 = cache_num dbf + 1" "cache_size d1 = cache_size dbf"
    by simp_all
  from c1 have c1': "cache d1 = m # ?e0 # rest" by simp
  from turn l1 rc1 obtain rc2 d2 where l2: "cache_lookup env d1 adr_1 (Some adr_0) = Some (rc2, d2)"
    by (cases "cache_lookup env d1 adr_1 (Some adr_0)") (auto simp: split_bucket_turn_def mru)
  from turn l1 rc1 l2 have rc2: "rc2 = cache_new"
    by (cases rc2) (simp_all add: split_bucket_turn_def mru)
  from room n1 have "cache_num d1 \<noteq> cache_size d1" by simp
  from cache_lookup_after [OF l2 this rc2] c1'
  have f1: "find (\<lambda>e. ca_adr e = adr_1) (m # ?e0 # rest) = None"
    and c2: "cache d2 = link_after ?e1 adr_0 (m # ?e0 # rest)"
    by simp_all
  from f0 have m0: "ca_adr m \<noteq> adr_0" and r0: "find (\<lambda>e. ca_adr e = adr_0) rest = None"
    by (auto split: if_splits)
  from f1 have m1: "ca_adr m \<noteq> adr_1" and a01: "adr_0 \<noteq> adr_1"
    and r1: "find (\<lambda>e. ca_adr e = adr_1) rest = None"
    by (auto split: if_splits)
  from c2 m0 have c2': "cache d2 = m # ?e0 # ?e1 # rest" by simp
  from turn l1 rc1 l2 rc2 obtain rcb d3 where b: "body d2 = Some (rcb, d3)"
    by (cases "body d2") (auto simp: split_bucket_turn_def mru)
  from turn l1 rc1 l2 rc2 b have rcb: "rcb = 0"
    by (auto simp: split_bucket_turn_def mru split: if_splits)
  from body [OF b] c2' obtain m' where c3: "cache d3 = m' # ?e0 # ?e1 # rest"
    by (cases "cache d3") auto
  let ?c0 = "\<lparr> ca_adr = adr_0, ca_changed = True, ca_hits = 0 \<rparr>"
  let ?c1 = "\<lparr> ca_adr = adr_1, ca_changed = True, ca_hits = 0 \<rparr>"
  let ?d4 = "(set_changed adr_1 (set_changed adr_0 d3)) \<lparr> directory_changed := True \<rparr>"
  have "\<exists>m''. cache ?d4 = m'' # ?c0 # ?c1 # rest"
    using c3 a01 r0 r1 by (simp add: set_changed_def find_None_mark)
  then obtain m'' where c4: "cache ?d4 = m'' # ?c0 # ?c1 # rest" by blast
  then have mru4: "cache_mru ?d4 = Some (ca_adr m'')" by (simp add: cache_mru_def)
  from turn l1 rc1 l2 rc2 b rcb mru4
  have res: "dbf' = lru_link_elem
                     (lru_unlink_elem (cache_elem_free ?d4 (ca_adr m'')) (if swap then adr_1 else adr_0))
                     \<lparr> ca_adr = (if swap then adr_1 else adr_0), ca_changed = True, ca_hits = 0 \<rparr> None"
    by (simp add: split_bucket_turn_def mru Let_def)
  have c5: "cache (cache_elem_free ?d4 (ca_adr m'')) = ?c0 # ?c1 # rest"
    using c4 by (simp add: cache_elem_free_def lru_unlink_elem_def Let_def)
  have fin: "cache dbf' = (if swap then [?c1, ?c0] else [?c0, ?c1]) @ rest"
    using res c5 a01 by (simp add: lru_link_elem_def lru_unlink_elem_def)
  from pre L have "dirty_prefix rest"
    by (auto simp: all_clean_dirty_prefix split: if_splits)
  with fin L show ?thesis by simp
qed

subsection \<open>A split that fails at its second lookup\<close>

text \<open>
  A handle as a turn of the split leaves it: two changed buckets at the head of the list,
  the element of the old bucket spare, and room in the table.
\<close>

definition dbf_two_dirty :: gdbm_file where
  "dbf_two_dirty = dbf_open \<lparr> cache := [\<lparr> ca_adr = 1024, ca_changed = True, ca_hits = 0 \<rparr>,
                                         \<lparr> ca_adr = 2048, ca_changed = True, ca_hits = 0 \<rparr>],
                              cache_num := 2, cache_avail := 1 \<rparr>"

lemma split_turn_calloc_fails:
  "split_bucket_turn (env_fail_at 0 ENOMEM) dbf_two_dirty 4096 4352 (\<lambda>d. Some (0, d)) False
     = Some (- 1, dbf_two_dirty \<lparr> cache := [\<lparr> ca_adr = 1024, ca_changed = True, ca_hits = 0 \<rparr>,
                                            \<lparr> ca_adr = 4096, ca_changed = False, ca_hits = 0 \<rparr>,
                                            \<lparr> ca_adr = 2048, ca_changed = True, ca_hits = 0 \<rparr>],
                                  cache_num := 3, cache_avail := 0, c_errno := ENOMEM,
                                  io_trace := [Sys_calloc] \<rparr>)"
  by (simp add: split_bucket_turn_def cache_lookup_def cache_obtain_def cache_tab_lookup_slot_def
      cache_elem_new_def cache_make_room_def cache_mru_def lru_link_elem_def
      sys_or_def sys_def env_fail_at_def failed_def dbf_two_dirty_def dbf_open_def Let_def)

lemma flush_after_failed_split:
  "gdbm_cache_flush (env_fail_at 0 ENOMEM)
     (dbf_two_dirty \<lparr> cache := [\<lparr> ca_adr = 1024, ca_changed = True, ca_hits = 0 \<rparr>,
                                \<lparr> ca_adr = 4096, ca_changed = False, ca_hits = 0 \<rparr>,
                                \<lparr> ca_adr = 2048, ca_changed = True, ca_hits = 0 \<rparr>],
                      cache_num := 3, cache_avail := 0, c_errno := ENOMEM,
                      io_trace := [Sys_calloc] \<rparr>)
   = Some (0, dbf_two_dirty \<lparr> cache := [\<lparr> ca_adr = 1024, ca_changed = False, ca_hits = 0 \<rparr>,
                                \<lparr> ca_adr = 4096, ca_changed = False, ca_hits = 0 \<rparr>,
                                \<lparr> ca_adr = 2048, ca_changed = True, ca_hits = 0 \<rparr>],
                      cache_num := 3, cache_avail := 0, c_errno := ENOMEM,
                      io_trace := [Sys_calloc, Sys_lseek 1024,
                                   Sys_full_write (Buf_bucket 1024) 256] \<rparr>)"
  by (simp add: gdbm_cache_flush_def gdbm_write_bucket_def gdbm_full_write_def
      sys_or_def sys_def env_fail_at_def failed_def dbf_two_dirty_def dbf_open_def Let_def
      hdr_512_256_def)

text \<open>
  Claim C2. The handle holds two changed buckets at the head of the list, so its changed
  elements form a contiguous sequence. The bucket at 1024 is split: the first lookup takes
  the spare element, and the \<^verbatim>\<open>calloc\<close> of the second lookup fails.
  \<^verbatim>\<open>_gdbm_split_bucket\<close> returns -1 with no error code set and a handle that does not need
  recovery, and the unchanged element made by the first lookup stays linked between the
  two changed ones. The changed elements no longer form a contiguous sequence at the head
  of the list, and a flush of the cache that follows returns 0 without writing the bucket
  at 2048, which stays changed.
\<close>

theorem split_failure_breaks_dirty_prefix:
  "dirty_prefix (cache dbf_two_dirty) \<and> \<not> need_recovery dbf_two_dirty
   \<and> (case split_bucket_turn (env_fail_at 0 ENOMEM) dbf_two_dirty 4096 4352 (\<lambda>d. Some (0, d)) False of
         None \<Rightarrow> False
       | Some (rc, d) \<Rightarrow>
           rc = - 1 \<and> \<not> need_recovery d \<and> last_error d = GDBM_NO_ERROR
           \<and> map ca_adr (cache d) = [1024, 4096, 2048]
           \<and> map ca_changed (cache d) = [True, False, True]
           \<and> \<not> dirty_prefix (cache d)
           \<and> (case gdbm_cache_flush (env_fail_at 0 ENOMEM) d of
                 None \<Rightarrow> False
               | Some (rc', d') \<Rightarrow>
                   rc' = 0 \<and> map ca_changed (cache d') = [False, False, True]
                   \<and> io_trace d' = io_trace d @ [Sys_lseek 1024, Sys_full_write (Buf_bucket 1024) 256]))"
  by (simp only: split_turn_calloc_fails flush_after_failed_split option.case prod.case)
     (simp add: dirty_prefix_def dbf_two_dirty_def dbf_open_def)

end
